theory Spec2Isabelle
  imports Main "HOL-Library.Word"
begin

section \<open>The HP 7550A spooler (7550a_stream.c)\<close>

text \<open>
  The program streams a file to the plotter over a serial line and paces the transfer by
  polling the plotter's free buffer space. The embedding follows the C source: machine
  integers are words (\<open>int\<close> is 32 bits, \<open>size_t\<close> 64 bits, as on the LP64 platforms the
  POSIX serial interface of the program lives on), the serial port and the input file are
  explicit values, every call that touches the serial port leaves an event in a trace, and
  a call that never returns is the value \<open>None\<close>.
\<close>

subsection \<open>Constants and machine types\<close>

type_synonym cint = "32 word"
type_synonym size_t = "64 word"

definition QUERY_DELAY :: nat where
  "QUERY_DELAY = 50000"

definition READBUFSIZE :: nat where
  "READBUFSIZE = 64"

definition DEVCOM_PREFIX :: string where
  "DEVCOM_PREFIX = [CHR 0x1B, CHR ''.'']"

definition DEVCOM_TERM :: char where
  "DEVCOM_TERM = CHR 0x0D"

definition NUL :: char where
  "NUL = CHR 0x00"

text \<open>
  The implicit conversion of \<open>bufsize = read_dec(...)\<close> and \<open>buffree = read_dec(...)\<close>:
  an \<open>int\<close> stored in a \<open>size_t\<close> is sign-extended, so a negative \<open>int\<close> becomes a
  value close to \<open>2 ^ 64\<close>.
\<close>

definition size_t_of_int :: "cint \<Rightarrow> size_t" where
  "size_t_of_int v = scast v"

subsection \<open>The C library's atoi\<close>

text \<open>
  \<open>atoi\<close> is the C library's: it skips leading white space, reads an optional sign and
  then decimal digits up to the first byte that is not a digit; with no digit at all the
  value is 0 and no error is reported. The C standard leaves a value outside \<open>int\<close>
  undefined; glibc computes \<open>(int) strtol(s, NULL, 10)\<close>, which clamps to the range of
  \<open>long\<close> and keeps the low 32 bits, and that is what is modelled.
\<close>

definition isspace_c :: "char \<Rightarrow> bool" where
  "isspace_c c = (c = CHR 0x20 \<or> c = CHR 0x09 \<or> c = CHR 0x0A \<or> c = CHR 0x0B
                  \<or> c = CHR 0x0C \<or> c = CHR 0x0D)"

definition isdigit_c :: "char \<Rightarrow> bool" where
  "isdigit_c c = (48 \<le> (of_char c :: nat) \<and> (of_char c :: nat) \<le> 57)"

fun strtol_digits :: "int \<Rightarrow> string \<Rightarrow> int" where
  "strtol_digits acc [] = acc"
| "strtol_digits acc (c # cs) =
     (if isdigit_c c then strtol_digits (10 * acc + (of_char c - 48)) cs else acc)"

fun strtol_signed :: "string \<Rightarrow> int" where
  "strtol_signed [] = 0"
| "strtol_signed (c # cs) =
     (if c = CHR ''-'' then - strtol_digits 0 cs
      else if c = CHR ''+'' then strtol_digits 0 cs
      else strtol_digits 0 (c # cs))"

definition LONG_MAX :: int where
  "LONG_MAX = 2 ^ 63 - 1"

definition LONG_MIN :: int where
  "LONG_MIN = - (2 ^ 63)"

definition atoi :: "string \<Rightarrow> cint" where
  "atoi s = word_of_int (max LONG_MIN (min LONG_MAX (strtol_signed (dropWhile isspace_c s))))"

text \<open>A C string stored in a buffer: the bytes before the first NUL.\<close>

definition c_str :: "string \<Rightarrow> string" where
  "c_str buf = takeWhile (\<lambda>c. c \<noteq> NUL) buf"

subsection \<open>The serial port as seen by read\<close>

text \<open>
  Both field readers call \<open>read(fd, read_buffer, 1)\<close> in a loop. The receiving side of
  the port is the list of the outcomes of these calls, in order: \<open>Some c\<close> when the call
  returned 1 and stored the byte \<open>c\<close>, \<open>None\<close> when it returned 0 or -1 and stored nothing
  (the \<open>for\<close> loop over \<open>rbuf_len\<close> then runs zero times). When the list is used up the
  plotter sends nothing more, and a reader still waiting for its terminator never returns.
\<close>

type_synonym serial_in = "char option list"

text \<open>
  Writing at index \<open>READBUFSIZE\<close> or beyond of a local buffer is outside the array; the
  source does not check the index, and C leaves the behaviour undefined. Passing the
  uninitialised pointer \<open>ident\<close> to \<open>free\<close> is undefined as well. The model stops with a
  fault at either.
\<close>

datatype fault = OutOfBounds | FreeUninitialised

text \<open>
  \<open>read_dec\<close> (lines 93-114). The local \<open>dec_buffer\<close> is uninitialised in C; here it starts
  zero-filled, and every slot that \<open>atoi\<close> reads has been written by the loop before.
\<close>

fun read_dec_loop :: "string \<Rightarrow> nat \<Rightarrow> serial_in \<Rightarrow> (fault + cint \<times> serial_in) option" where
  "read_dec_loop dec_buffer dbuf_pos [] = None"
| "read_dec_loop dec_buffer dbuf_pos (None # rx) = read_dec_loop dec_buffer dbuf_pos rx"
| "read_dec_loop dec_buffer dbuf_pos (Some c # rx) =
     (if c = DEVCOM_TERM then
        (if dbuf_pos < READBUFSIZE
         then Some (Inr (atoi (c_str (dec_buffer[dbuf_pos := NUL])), rx))
         else Some (Inl OutOfBounds))
      else if dbuf_pos < READBUFSIZE
        then read_dec_loop (dec_buffer[dbuf_pos := c]) (Suc dbuf_pos) rx
        else Some (Inl OutOfBounds))"

definition read_dec :: "serial_in \<Rightarrow> (fault + cint \<times> serial_in) option" where
  "read_dec rx = read_dec_loop (replicate READBUFSIZE NUL) 0 rx"

text \<open>\<open>read_asc\<close> (lines 120-141): the same loop, returning a copy of the string.\<close>

fun read_asc_loop :: "string \<Rightarrow> nat \<Rightarrow> serial_in \<Rightarrow> (fault + string \<times> serial_in) option" where
  "read_asc_loop asc_buffer dbuf_pos [] = None"
| "read_asc_loop asc_buffer dbuf_pos (None # rx) = read_asc_loop asc_buffer dbuf_pos rx"
| "read_asc_loop asc_buffer dbuf_pos (Some c # rx) =
     (if c = DEVCOM_TERM then
        (if dbuf_pos < READBUFSIZE
         then Some (Inr (c_str (asc_buffer[dbuf_pos := NUL]), rx))
         else Some (Inl OutOfBounds))
      else if dbuf_pos < READBUFSIZE
        then read_asc_loop (asc_buffer[dbuf_pos := c]) (Suc dbuf_pos) rx
        else Some (Inl OutOfBounds))"

definition read_asc :: "serial_in \<Rightarrow> (fault + string \<times> serial_in) option" where
  "read_asc rx = read_asc_loop (replicate READBUFSIZE NUL) 0 rx"

text \<open>A response as the plotter sends it: the bytes of the field, then the terminator.\<close>

definition response :: "string \<Rightarrow> serial_in" where
  "response s = map Some (s @ [DEVCOM_TERM])"

text \<open>The bytes that the calls of \<open>read\<close> deliver, without the calls that deliver none.\<close>

fun received :: "serial_in \<Rightarrow> string" where
  "received [] = []"
| "received (None # rx) = received rx"
| "received (Some c # rx) = c # received rx"

lemma read_dec_loop_consumes:
  "read_dec_loop buf pos rx = Some (Inr (v, rx')) \<Longrightarrow> length rx' < length rx"
  by (induction buf pos rx rule: read_dec_loop.induct) (auto split: if_splits)

lemma read_dec_consumes:
  "read_dec rx = Some (Inr (v, rx')) \<Longrightarrow> length rx' < length rx"
  unfolding read_dec_def by (rule read_dec_loop_consumes)

subsection \<open>Traces and runs\<close>

text \<open>
  What the program does on the serial port, in order: \<open>Command s\<close> is a call
  \<open>serial_write(serial_fd, s)\<close>, \<open>DecField v\<close> a call of \<open>read_dec\<close> that returned \<open>v\<close>,
  \<open>AscField s\<close> a call of \<open>read_asc\<close> that returned \<open>s\<close>, \<open>Usleep d\<close> a call \<open>usleep(d)\<close>
  and \<open>Data buf\<close> the call \<open>write(serial_fd, buffer, fbufsize)\<close> of line 275, with the
  \<open>fbufsize\<close> bytes handed to it. The verbose messages go to the error stream and are left
  out. A run is the trace together with how the code ended: \<open>None\<close> when it never returns,
  \<open>Some (Inl f)\<close> at a fault, \<open>Some (Inr x)\<close> when it returned \<open>x\<close>.
\<close>

datatype event =
    Command string
  | DecField cint
  | AscField string
  | Usleep nat
  | Data string

type_synonym 'a run = "event list \<times> (fault + 'a) option"

definition next_run :: "'a run \<Rightarrow> ('a \<Rightarrow> 'b run) \<Rightarrow> 'b run" where
  "next_run m k =
     (case m of
        (tr, None) \<Rightarrow> (tr, None)
      | (tr, Some (Inl e)) \<Rightarrow> (tr, Some (Inl e))
      | (tr, Some (Inr x)) \<Rightarrow> (case k x of (tr', r) \<Rightarrow> (tr @ tr', r)))"

subsection \<open>The input file\<close>

text \<open>
  The input stream: the bytes not yet read and the end-of-file indicator of the \<open>FILE\<close>.
  \<open>fread(buffer, 1, nmemb, input)\<close> delivers up to \<open>nmemb\<close> bytes and sets the indicator
  only when it runs into the end of the file, that is when fewer than \<open>nmemb\<close> bytes were
  left; a call with \<open>nmemb = 0\<close> reads nothing and leaves the indicator alone.

  The buffer is what \<open>malloc(chunksize)\<close> returned (line 253), and the program does not
  test it. Whether a request succeeds is up to the system, so \<open>malloc\<close> is an argument of
  the session; a request close to \<open>2 ^ 63\<close> bytes, as a negative capacity answer produces,
  never does. With a null buffer and \<open>nmemb > 0\<close> the read of the operating system
  underneath \<open>fread\<close> fails: no byte is delivered, the stream keeps its position, and the
  error indicator is set, which the program never tests, instead of the end-of-file
  indicator. (C leaves the call undefined; this is what it does on the program's platform
  for a request that large.)
\<close>

record cfile =
  unread :: string
  at_eof :: bool

definition feof :: "cfile \<Rightarrow> bool" where
  "feof f = at_eof f"

datatype pointer = NULL | Allocated

definition fread :: "pointer \<Rightarrow> nat \<Rightarrow> cfile \<Rightarrow> string \<times> cfile" where
  "fread ptr nmemb f =
     (if ptr = NULL \<and> 0 < nmemb then ([], f)
      else
        (take nmemb (unread f),
         \<lparr>unread = drop nmemb (unread f), at_eof = (at_eof f \<or> length (unread f) < nmemb)\<rparr>))"

subsection \<open>The poll loop (lines 263-270)\<close>

text \<open>
  \<open>while(buffree <= fbufsize) { usleep; serial_write "ESC . B"; buffree = read_dec; }\<close>
  on \<open>size_t\<close> values. It returns the rest of the serial input once \<open>buffree\<close> exceeds
  \<open>fbufsize\<close>.
\<close>

function poll :: "size_t \<Rightarrow> size_t \<Rightarrow> serial_in \<Rightarrow> serial_in run" where
  "poll buffree fbufsize rx =
     (if buffree \<le> fbufsize then
        (case read_dec rx of
           None \<Rightarrow> ([Usleep QUERY_DELAY, Command (DEVCOM_PREFIX @ ''B'')], None)
         | Some (Inl e) \<Rightarrow> ([Usleep QUERY_DELAY, Command (DEVCOM_PREFIX @ ''B'')], Some (Inl e))
         | Some (Inr (v, rx')) \<Rightarrow>
             (case poll (size_t_of_int v) fbufsize rx' of
                (tr, r) \<Rightarrow>
                  (Usleep QUERY_DELAY # Command (DEVCOM_PREFIX @ ''B'') # DecField v # tr, r)))
      else ([], Some (Inr rx)))"
  by pat_completeness auto
termination
  by (relation "measure (\<lambda>(buffree, fbufsize, rx). length rx)")
     (auto dest: read_dec_consumes)

declare poll.simps [simp del]

lemma poll_release: "\<not> buffree \<le> fbufsize \<Longrightarrow> poll buffree fbufsize rx = ([], Some (Inr rx))"
  by (subst poll.simps) simp

lemma poll_again:
  "buffree \<le> fbufsize \<Longrightarrow> poll buffree fbufsize rx =
     (case read_dec rx of
        None \<Rightarrow> ([Usleep QUERY_DELAY, Command (DEVCOM_PREFIX @ ''B'')], None)
      | Some (Inl e) \<Rightarrow> ([Usleep QUERY_DELAY, Command (DEVCOM_PREFIX @ ''B'')], Some (Inl e))
      | Some (Inr (v, rx')) \<Rightarrow>
          (case poll (size_t_of_int v) fbufsize rx' of
             (tr, r) \<Rightarrow>
               (Usleep QUERY_DELAY # Command (DEVCOM_PREFIX @ ''B'') # DecField v # tr, r)))"
  by (subst poll.simps) simp

lemma poll_consumes:
  "poll buffree fbufsize rx = (tr, Some (Inr rx')) \<Longrightarrow>
     length rx' \<le> length rx \<and> (buffree \<le> fbufsize \<longrightarrow> length rx' < length rx)"
proof (induction buffree fbufsize rx arbitrary: tr rule: poll.induct)
  case (1 buffree fbufsize rx)
  show ?case
  proof (cases "buffree \<le> fbufsize")
    case False
    with "1.prems" show ?thesis by (simp add: poll_release)
  next
    case True
    with "1.prems" obtain v rx1 tr1 where
      rd: "read_dec rx = Some (Inr (v, rx1))" and
      rec: "poll (size_t_of_int v) fbufsize rx1 = (tr1, Some (Inr rx'))"
      by (auto simp: poll_again split: option.splits sum.splits prod.splits)
    from "1.IH" [OF True rd refl refl rec] have "length rx' \<le> length rx1" by simp
    with read_dec_consumes [OF rd] True show ?thesis by simp
  qed
qed

lemma poll_zero_consumes:
  "poll 0 fbufsize rx = (tr, Some (Inr rx')) \<Longrightarrow> length rx' < length rx"
  using poll_consumes [of 0 fbufsize rx tr rx'] by simp

subsection \<open>The transfer loop (lines 260-276)\<close>

text \<open>
  \<open>while(!feof(input)) { fbufsize = fread(buffer, 1, chunksize, input); buffree = 0;
  poll loop; write(serial_fd, buffer, fbufsize); }\<close>. The buffer holds \<open>chunksize\<close> bytes
  and \<open>fread\<close> fills its first \<open>fbufsize\<close> bytes, which are the bytes written; \<open>chunk\<close>
  stands for them.
\<close>

function spool :: "size_t \<Rightarrow> pointer \<Rightarrow> cfile \<Rightarrow> serial_in \<Rightarrow> (cfile \<times> serial_in) run" where
  "spool chunksize buffer f rx =
     (if feof f then ([], Some (Inr (f, rx)))
      else
        (case fread buffer (unat chunksize) f of
           (chunk, f') \<Rightarrow>
             (case poll 0 (of_nat (length chunk)) rx of
                (tr, None) \<Rightarrow> (tr, None)
              | (tr, Some (Inl e)) \<Rightarrow> (tr, Some (Inl e))
              | (tr, Some (Inr rx')) \<Rightarrow>
                  (case spool chunksize buffer f' rx' of
                     (tr', r) \<Rightarrow> (tr @ Data chunk # tr', r)))))"
  by pat_completeness auto
termination
  by (relation "measure (\<lambda>(chunksize, buffer, f, rx). length rx)")
     (auto dest: poll_zero_consumes [OF sym])

declare spool.simps [simp del]

subsection \<open>The session (lines 227-290)\<close>

text \<open>
  Option parsing and the opening of the input file and of the port come before the first
  byte on the line and are not modelled: \<open>main\<close> starts at the plotter's init sequence,
  with \<open>malloc\<close>, the verbose flag, the contents of the input and the serial input as
  arguments.
  \<open>main_init\<close> is lines 227-251: it returns the chunk size; line 253 asks for the
  buffer, which the transfer loop uses untested. After the transfer loop the
  power-off command is sent; \<open>free(ident)\<close> then frees a pointer that was only assigned in
  verbose mode. The exits with \<open>EXIT_FAILURE\<close> all lie in the part before the session
  (options, input file, port).
\<close>

datatype exit_status = EXIT_SUCCESS | EXIT_FAILURE

definition init_sequence :: "event list" where
  "init_sequence =
     [Command (DEVCOM_PREFIX @ ''(''), Command (DEVCOM_PREFIX @ ''R''),
      Command (DEVCOM_PREFIX @ ''L'')]"

definition start_sequence :: "event list" where
  "start_sequence =
     [Command (DEVCOM_PREFIX @ ''L''), Command (DEVCOM_PREFIX @ ''L''),
      Command (DEVCOM_PREFIX @ ''U'')]"

definition chunksize_of :: "size_t \<Rightarrow> size_t" where
  "chunksize_of bufsize = bufsize div 2"

definition main_init :: "bool \<Rightarrow> serial_in \<Rightarrow> (size_t \<times> serial_in) run" where
  "main_init verbose rx =
     (case read_dec rx of
        None \<Rightarrow> (init_sequence, None)
      | Some (Inl e) \<Rightarrow> (init_sequence, Some (Inl e))
      | Some (Inr (v, rx1)) \<Rightarrow>
          (let bufsize = size_t_of_int v; chunksize = chunksize_of bufsize in
           if verbose then
             (case read_asc rx1 of
                None \<Rightarrow>
                  (init_sequence @ [DecField v, Command (DEVCOM_PREFIX @ ''A'')], None)
              | Some (Inl e) \<Rightarrow>
                  (init_sequence @ [DecField v, Command (DEVCOM_PREFIX @ ''A'')], Some (Inl e))
              | Some (Inr (ident, rx2)) \<Rightarrow>
                  (init_sequence @ [DecField v, Command (DEVCOM_PREFIX @ ''A''), AscField ident]
                     @ start_sequence,
                   Some (Inr (chunksize, rx2))))
           else (init_sequence @ [DecField v] @ start_sequence, Some (Inr (chunksize, rx1)))))"

definition main_shutdown :: "bool \<Rightarrow> exit_status run" where
  "main_shutdown verbose =
     ([Command (DEVCOM_PREFIX @ '')'')],
      if verbose then Some (Inr EXIT_SUCCESS) else Some (Inl FreeUninitialised))"

definition main :: "(size_t \<Rightarrow> pointer) \<Rightarrow> bool \<Rightarrow> string \<Rightarrow> serial_in \<Rightarrow> exit_status run" where
  "main malloc verbose input rx =
     next_run (main_init verbose rx) (\<lambda>(chunksize, rx').
       (let buffer = malloc chunksize in
        next_run (spool chunksize buffer \<lparr>unread = input, at_eof = False\<rparr> rx') (\<lambda>(f, rx'').
          main_shutdown verbose)))"

subsection \<open>Reading traces and the plotter's answers\<close>

text \<open>The data writes of a trace, in order.\<close>

fun data_writes :: "event list \<Rightarrow> string list" where
  "data_writes [] = []"
| "data_writes (Data d # tr) = d # data_writes tr"
| "data_writes (e # tr) = data_writes tr"

text \<open>
  The events just before a data write of \<open>d\<close>: they end with the pacing delay, the
  free-space query and an answer \<open>v\<close> that, stored in \<open>buffree\<close>, is greater than the
  number of bytes of \<open>d\<close>.
\<close>

definition gate :: "event list \<Rightarrow> string \<Rightarrow> bool" where
  "gate pre d =
     (\<exists>pre' v. pre = pre' @ [Usleep QUERY_DELAY, Command (DEVCOM_PREFIX @ ''B''), DecField v]
        \<and> length d < unat (size_t_of_int v))"

text \<open>
  The plotter answers every query (\<open>ESC . L\<close>, \<open>ESC . B\<close>, \<open>ESC . A\<close>) with one field, and
  the line delivers the answers in the order of the queries. \<open>pending\<close> counts the queries
  sent whose answers have not been read: when it is \<open>k\<close> before a query is sent, the next
  field read is not the answer to that query but to the one sent \<open>k\<close> queries earlier.
\<close>

definition is_query :: "string \<Rightarrow> bool" where
  "is_query s = (s = DEVCOM_PREFIX @ ''L'' \<or> s = DEVCOM_PREFIX @ ''B'' \<or> s = DEVCOM_PREFIX @ ''A'')"

fun pending :: "event list \<Rightarrow> int" where
  "pending [] = 0"
| "pending (Command s # tr) = (if is_query s then 1 else 0) + pending tr"
| "pending (DecField v # tr) = pending tr - 1"
| "pending (AscField s # tr) = pending tr - 1"
| "pending (e # tr) = pending tr"

text \<open>
  The free-space values that successive calls of \<open>read_dec\<close> return on a serial input, up
  to the first call that does not return.
\<close>

function answers :: "serial_in \<Rightarrow> size_t list" where
  "answers rx =
     (case read_dec rx of
        Some (Inr (v, rx')) \<Rightarrow> size_t_of_int v # answers rx'
      | _ \<Rightarrow> [])"
  by pat_completeness auto
termination
  by (relation "measure length") (auto dest: read_dec_consumes)

declare answers.simps [simp del]

text \<open>
  Every poll loop finds a sufficient answer: for the chunks of \<open>ns\<close> bytes in turn, the
  answers not yet read contain one greater than the chunk's size (the loop stops at the
  first such answer, and the next chunk goes on from there).
\<close>

fun releases :: "size_t list \<Rightarrow> nat list \<Rightarrow> bool" where
  "releases vs [] = True"
| "releases vs (n # ns) =
     (case dropWhile (\<lambda>v. unat v \<le> n) vs of
        [] \<Rightarrow> False
      | v # vs' \<Rightarrow> releases vs' ns)"

text \<open>
  The reads of the transfer loop on an input \<open>xs\<close> with a buffer of \<open>c > 0\<close> bytes: full
  chunks while at least \<open>c\<close> bytes are left, then the rest, which is shorter than \<open>c\<close>
  (and empty when the length of \<open>xs\<close> is a multiple of \<open>c\<close>) and sets the end-of-file
  indicator. (For \<open>c = 0\<close> the loop never ends; the equation only makes the function
  total.)
\<close>

function chunks :: "nat \<Rightarrow> string \<Rightarrow> string list" where
  "chunks c xs = (if c = 0 \<or> length xs < c then [xs] else take c xs # chunks c (drop c xs))"
  by pat_completeness auto
termination
  by (relation "measure (\<lambda>(c, xs). length xs)") auto

declare chunks.simps [simp del]

text \<open>The events of the poll loop: the pacing delay, the free-space query, an answer read.\<close>

definition poll_event :: "event \<Rightarrow> bool" where
  "poll_event e =
     (case e of
        Usleep d \<Rightarrow> d = QUERY_DELAY
      | Command s \<Rightarrow> s = DEVCOM_PREFIX @ ''B''
      | DecField v \<Rightarrow> True
      | _ \<Rightarrow> False)"

section \<open>The field readers\<close>

subsection \<open>What atoi sees\<close>

text \<open>
  \<open>atoi\<close> stops at the first byte that is no digit, and NUL is neither white space, a sign
  nor a digit: cutting the buffer at its first NUL does not change the value.
\<close>

lemma isspace_not_NUL: "isspace_c c \<Longrightarrow> c \<noteq> NUL"
  by (auto simp: isspace_c_def NUL_def)

lemma isdigit_not_NUL: "isdigit_c c \<Longrightarrow> c \<noteq> NUL"
  by (auto simp: isdigit_c_def NUL_def)

lemma dropWhile_isspace_c_str:
  "dropWhile isspace_c (c_str s) = c_str (dropWhile isspace_c s)"
  by (induction s) (auto simp: c_str_def dest: isspace_not_NUL)

lemma strtol_digits_c_str: "strtol_digits acc (c_str s) = strtol_digits acc s"
  by (induction s arbitrary: acc) (auto simp: c_str_def dest: isdigit_not_NUL)

lemma strtol_signed_c_str: "strtol_signed (c_str s) = strtol_signed s"
proof (cases s)
  case Nil
  then show ?thesis by (simp add: c_str_def)
next
  case (Cons c cs)
  show ?thesis
  proof (cases "c = NUL")
    case True
    with Cons show ?thesis by (simp add: c_str_def NUL_def isdigit_c_def)
  next
    case False
    then have "c_str (c # cs) = c # c_str cs" by (simp add: c_str_def)
    with Cons show ?thesis
      using strtol_digits_c_str [of _ cs] by simp
  qed
qed

lemma atoi_c_str: "atoi (c_str s) = atoi s"
  by (simp add: atoi_def dropWhile_isspace_c_str strtol_signed_c_str)

lemma c_str_append_NUL: "c_str (s @ NUL # t) = c_str s"
  by (induction s) (auto simp: c_str_def)

subsection \<open>A response that fits the buffer\<close>

lemma read_dec_loop_response:
  "DEVCOM_TERM \<notin> set bs \<Longrightarrow> length buf = READBUFSIZE \<Longrightarrow> pos + length bs < READBUFSIZE \<Longrightarrow>
   read_dec_loop buf pos (map Some bs @ Some DEVCOM_TERM # rx)
     = Some (Inr (atoi (take pos buf @ bs), rx))"
proof (induction bs arbitrary: buf pos)
  case Nil
  then have "buf[pos := NUL] = take pos buf @ NUL # drop (Suc pos) buf"
    by (simp add: upd_conv_take_nth_drop)
  then show ?case using Nil by (simp add: c_str_append_NUL atoi_c_str)
next
  case (Cons b bs)
  have "take (Suc pos) (buf[pos := b]) = take pos buf @ [b]"
    using Cons.prems by (simp add: take_Suc_conv_app_nth)
  with Cons.IH [of "buf[pos := b]" "Suc pos"] Cons.prems show ?case by auto
qed

lemma read_dec_response:
  "DEVCOM_TERM \<notin> set s \<Longrightarrow> length s < READBUFSIZE \<Longrightarrow>
   read_dec (response s @ rx) = Some (Inr (atoi s, rx))"
  using read_dec_loop_response [of s "replicate READBUFSIZE NUL" 0 rx]
  by (simp add: read_dec_def response_def)

text \<open>
  Claim C9 (decoder round trip). For each \<open>k\<close> of 0, 1 and 9999, the numeric-field reader
  fed the ASCII decimal digits of \<open>k\<close> followed by the terminator byte returns exactly
  \<open>k\<close> (and leaves what follows the terminator unread).
\<close>

theorem read_dec_roundtrip:
  "read_dec (response ''0'' @ rx) = Some (Inr (0, rx)) \<and>
   read_dec (response ''1'' @ rx) = Some (Inr (1, rx)) \<and>
   read_dec (response ''9999'' @ rx) = Some (Inr (9999, rx))"
proof -
  have "atoi ''0'' = 0" "atoi ''1'' = 1" "atoi ''9999'' = 9999"
    by code_simp+
  then show ?thesis
    by (simp add: read_dec_response DEVCOM_TERM_def READBUFSIZE_def)
qed

subsection \<open>The index stays inside the buffer\<close>

lemma read_dec_loop_in_bounds:
  "DEVCOM_TERM \<in> set (take k (received rx)) \<Longrightarrow> pos + k \<le> READBUFSIZE \<Longrightarrow>
   \<exists>v rest. read_dec_loop buf pos rx = Some (Inr (v, rest))"
proof (induction buf pos rx arbitrary: k rule: read_dec_loop.induct)
  case (1 dec_buffer dbuf_pos)
  then show ?case by simp
next
  case (2 dec_buffer dbuf_pos rx)
  then show ?case by simp
next
  case (3 dec_buffer dbuf_pos c rx)
  from "3.prems" obtain k' where k: "k = Suc k'" by (cases k) auto
  with "3.prems" have pos: "dbuf_pos < READBUFSIZE" by simp
  show ?case
  proof (cases "c = DEVCOM_TERM")
    case True
    with pos show ?thesis by simp
  next
    case False
    with "3.prems" k have "DEVCOM_TERM \<in> set (take k' (received rx))" by simp
    moreover from "3.prems" k have "Suc dbuf_pos + k' \<le> READBUFSIZE" by simp
    ultimately have
      "\<exists>v rest. read_dec_loop (dec_buffer[dbuf_pos := c]) (Suc dbuf_pos) rx = Some (Inr (v, rest))"
      using "3.IH" [OF False pos] by blast
    with False pos show ?thesis by simp
  qed
qed

lemma read_asc_loop_in_bounds:
  "DEVCOM_TERM \<in> set (take k (received rx)) \<Longrightarrow> pos + k \<le> READBUFSIZE \<Longrightarrow>
   \<exists>s rest. read_asc_loop buf pos rx = Some (Inr (s, rest))"
proof (induction buf pos rx arbitrary: k rule: read_asc_loop.induct)
  case (1 asc_buffer dbuf_pos)
  then show ?case by simp
next
  case (2 asc_buffer dbuf_pos rx)
  then show ?case by simp
next
  case (3 asc_buffer dbuf_pos c rx)
  from "3.prems" obtain k' where k: "k = Suc k'" by (cases k) auto
  with "3.prems" have pos: "dbuf_pos < READBUFSIZE" by simp
  show ?case
  proof (cases "c = DEVCOM_TERM")
    case True
    with pos show ?thesis by simp
  next
    case False
    with "3.prems" k have "DEVCOM_TERM \<in> set (take k' (received rx))" by simp
    moreover from "3.prems" k have "Suc dbuf_pos + k' \<le> READBUFSIZE" by simp
    ultimately have
      "\<exists>s rest. read_asc_loop (asc_buffer[dbuf_pos := c]) (Suc dbuf_pos) rx = Some (Inr (s, rest))"
      using "3.IH" [OF False pos] by blast
    with False pos show ?thesis by simp
  qed
qed

text \<open>
  Claim C10 (buffer safety). When the terminator is among the first 63 bytes that the
  plotter sends, both field readers return: neither blocks for ever, and neither uses an
  index outside its 64-byte buffer (the model stops with \<open>OutOfBounds\<close> at the first such
  index, and it does not).
\<close>

theorem readers_in_bounds:
  "DEVCOM_TERM \<in> set (take 63 (received rx)) \<Longrightarrow>
   (\<exists>v rest. read_dec rx = Some (Inr (v, rest))) \<and>
   (\<exists>s rest. read_asc rx = Some (Inr (s, rest)))"
  using read_dec_loop_in_bounds [of 63 rx 0] read_asc_loop_in_bounds [of 63 rx 0]
  by (simp add: read_dec_def read_asc_def READBUFSIZE_def)

theorem readers_in_bounds_witness:
  "DEVCOM_TERM \<in> set (take 63 (received (response ''100''))) \<and>
   (\<exists>v rest. read_dec (response ''100'') = Some (Inr (v, rest))) \<and>
   (\<exists>s rest. read_asc (response ''100'') = Some (Inr (s, rest)))"
proof -
  have h: "DEVCOM_TERM \<in> set (take 63 (received (response ''100'')))"
    by code_simp
  from readers_in_bounds [OF h] h show ?thesis by simp
qed

text \<open>
  The check of the model is not idle: 63 bytes before the terminator fill the buffer to
  its last slot, and 64 bytes before it make the readers write the slot after the last.
\<close>

lemma read_dec_full_buffer:
  "read_dec (response (replicate 63 (CHR ''0''))) = Some (Inr (0, []))"
  by code_simp

lemma read_dec_overrun:
  "read_dec (response (replicate 64 (CHR ''7''))) = Some (Inl OutOfBounds)"
  by code_simp

lemma read_asc_overrun:
  "read_asc (response (replicate 64 (CHR ''7''))) = Some (Inl OutOfBounds)"
  by code_simp

section \<open>Running the program on concrete inputs\<close>

text \<open>
  The loops are evaluated by their two conditional equations (\<open>poll_again\<close>,
  \<open>poll_release\<close>) and the readers by \<open>read_dec_response\<close>.
\<close>

lemma read_dec_response_last:
  "DEVCOM_TERM \<notin> set s \<Longrightarrow> length s < READBUFSIZE \<Longrightarrow>
   read_dec (response s) = Some (Inr (atoi s, []))"
  using read_dec_response [of s "[]"] by simp

lemma read_dec_silent: "read_dec [] = None"
  by (simp add: read_dec_def)

lemma atoi_examples:
  "atoi ''0'' = 0" "atoi ''1'' = 1" "atoi ''9'' = 9" "atoi ''10'' = 10" "atoi ''50'' = 50"
  "atoi ''60'' = 60" "atoi ''100'' = 100" "atoi ''abc'' = 0"
  by code_simp+

lemma size_t_examples:
  "size_t_of_int 0 = 0" "size_t_of_int 1 = 1" "size_t_of_int 9 = 9" "size_t_of_int 10 = 10"
  "size_t_of_int 50 = 50" "size_t_of_int 60 = 60" "size_t_of_int 100 = 100"
  by (simp_all add: size_t_of_int_def)

lemmas run_simps = poll_again poll_release read_dec_response read_dec_response_last
  read_dec_silent atoi_examples size_t_examples DEVCOM_TERM_def READBUFSIZE_def

section \<open>The poll loop\<close>

lemma poll_below: "buffree \<le> fbufsize \<Longrightarrow> poll buffree fbufsize rx = poll 0 fbufsize rx"
  using poll_again [of buffree fbufsize rx] poll_again [of 0 fbufsize rx] by simp

text \<open>
  Claim C3 (release condition), as the code has it. The loop condition is
  \<open>buffree <= fbufsize\<close>: after a query answered with \<open>v\<close> the chunk of \<open>n\<close> bytes is
  released exactly when \<open>v\<close> is greater than \<open>n\<close>; while the answers are at most \<open>n\<close> the loop
  polls again, so an answer of exactly \<open>n\<close> does not release the chunk.
\<close>

theorem poll_release_condition:
  "read_dec rx = Some (Inr (v, rx')) \<Longrightarrow>
   poll 0 n rx =
     (if n < size_t_of_int v
      then ([Usleep QUERY_DELAY, Command (DEVCOM_PREFIX @ ''B''), DecField v], Some (Inr rx'))
      else (case poll 0 n rx' of
              (tr, r) \<Rightarrow>
                (Usleep QUERY_DELAY # Command (DEVCOM_PREFIX @ ''B'') # DecField v # tr, r)))"
  using poll_again [of 0 n rx] poll_release [of "size_t_of_int v" n rx']
    poll_below [of "size_t_of_int v" n rx']
  by (auto simp: not_less)

theorem poll_release_condition_witness:
  "read_dec (response ''50'' @ response ''60'') = Some (Inr (50, response ''60'')) \<and>
   poll 0 50 (response ''50'' @ response ''60'') =
     (if (50 :: size_t) < size_t_of_int 50
      then ([Usleep QUERY_DELAY, Command (DEVCOM_PREFIX @ ''B''), DecField 50],
            Some (Inr (response ''60'')))
      else (case poll 0 50 (response ''60'') of
              (tr, r) \<Rightarrow>
                (Usleep QUERY_DELAY # Command (DEVCOM_PREFIX @ ''B'') # DecField 50 # tr, r)))"
proof -
  have h: "read_dec (response ''50'' @ response ''60'') = Some (Inr (50, response ''60''))"
    by (simp add: read_dec_response atoi_examples DEVCOM_TERM_def READBUFSIZE_def)
  from poll_release_condition [OF h, of 50] h show ?thesis by simp
qed

text \<open>
  The claim as the specification words it (an answer of exactly \<open>n\<close> releases the chunk)
  fails: for a chunk of 50 bytes and the answers 50 and 60, the loop polls a second time
  after the answer 50 and releases on 60.
\<close>

theorem poll_exact_counterexample:
  "poll 0 50 (response ''50'' @ response ''60'') =
     ([Usleep QUERY_DELAY, Command (DEVCOM_PREFIX @ ''B''), DecField 50,
       Usleep QUERY_DELAY, Command (DEVCOM_PREFIX @ ''B''), DecField 60], Some (Inr []))"
  by (simp add: run_simps)

subsection \<open>A response that is no number\<close>

lemma atoi_no_number:
  "\<not> isspace_c c \<Longrightarrow> \<not> isdigit_c c \<Longrightarrow> c \<noteq> CHR ''+'' \<Longrightarrow> c \<noteq> CHR ''-'' \<Longrightarrow>
   atoi (c # cs) = 0"
  by (simp add: atoi_def LONG_MIN_def LONG_MAX_def)

text \<open>
  Claim C5 (malformed numeric response), as the code has it. The program has no protocol
  error: a response that fits the buffer and starts with a byte that is no digit, sign or
  white space makes \<open>read_dec\<close> return 0 like any other value, and the poll loop, for
  which 0 never exceeds the chunk's size, sends the next query.
\<close>

theorem read_dec_malformed:
  "DEVCOM_TERM \<notin> set (c # cs) \<Longrightarrow> length (c # cs) < READBUFSIZE \<Longrightarrow>
   \<not> isdigit_c c \<Longrightarrow> \<not> isspace_c c \<Longrightarrow> c \<noteq> CHR ''+'' \<Longrightarrow> c \<noteq> CHR ''-'' \<Longrightarrow>
   read_dec (response (c # cs) @ rx) = Some (Inr (0, rx)) \<and>
   poll 0 n (response (c # cs) @ rx) =
     (case poll 0 n rx of
        (tr, r) \<Rightarrow> (Usleep QUERY_DELAY # Command (DEVCOM_PREFIX @ ''B'') # DecField 0 # tr, r))"
proof -
  assume a: "DEVCOM_TERM \<notin> set (c # cs)" "length (c # cs) < READBUFSIZE"
    and b: "\<not> isdigit_c c" "\<not> isspace_c c" "c \<noteq> CHR ''+''" "c \<noteq> CHR ''-''"
  have rd: "read_dec (response (c # cs) @ rx) = Some (Inr (0, rx))"
    using read_dec_response [OF a, of rx] atoi_no_number [of c cs] b by simp
  have "poll 0 n (response (c # cs) @ rx) =
     (case poll 0 n rx of
        (tr, r) \<Rightarrow> (Usleep QUERY_DELAY # Command (DEVCOM_PREFIX @ ''B'') # DecField 0 # tr, r))"
    using poll_again [of 0 n "response (c # cs) @ rx"] rd by (simp add: size_t_examples)
  with rd show ?thesis by simp
qed

theorem read_dec_malformed_witness:
  "DEVCOM_TERM \<notin> set (CHR ''a'' # ''bc'') \<and> length (CHR ''a'' # ''bc'') < READBUFSIZE \<and>
   \<not> isdigit_c (CHR ''a'') \<and> \<not> isspace_c (CHR ''a'') \<and>
   CHR ''a'' \<noteq> CHR ''+'' \<and> CHR ''a'' \<noteq> CHR ''-'' \<and>
   read_dec (response (CHR ''a'' # ''bc'') @ response ''60'') = Some (Inr (0, response ''60'')) \<and>
   poll 0 50 (response (CHR ''a'' # ''bc'') @ response ''60'') =
     (case poll 0 50 (response ''60'') of
        (tr, r) \<Rightarrow> (Usleep QUERY_DELAY # Command (DEVCOM_PREFIX @ ''B'') # DecField 0 # tr, r))"
proof -
  have h: "DEVCOM_TERM \<notin> set (CHR ''a'' # ''bc'')" "length (CHR ''a'' # ''bc'') < READBUFSIZE"
    "\<not> isdigit_c (CHR ''a'')" "\<not> isspace_c (CHR ''a'')"
    "CHR ''a'' \<noteq> CHR ''+''" "CHR ''a'' \<noteq> CHR ''-''"
    by (simp_all add: DEVCOM_TERM_def READBUFSIZE_def isdigit_c_def isspace_c_def)
  from read_dec_malformed [OF h, of "response ''60''" 50] h show ?thesis by simp
qed

text \<open>
  The claim as the specification words it (an explicit \<open>MalformedNumeric\<close> error) fails:
  the response \<open>abc\<close> is read as the value 0, and a poll loop that receives it goes on to
  the next query and releases the chunk on the answer 60.
\<close>

theorem malformed_numeric_counterexample:
  "read_dec (response ''abc'') = Some (Inr (0, [])) \<and>
   poll 0 50 (response ''abc'' @ response ''60'') =
     ([Usleep QUERY_DELAY, Command (DEVCOM_PREFIX @ ''B''), DecField 0,
       Usleep QUERY_DELAY, Command (DEVCOM_PREFIX @ ''B''), DecField 60], Some (Inr []))"
  by (simp add: run_simps)

section \<open>The transfer loop\<close>

subsection \<open>Traces of the poll loop\<close>

lemma data_writes_append: "data_writes (a @ b) = data_writes a @ data_writes b"
  by (induction a rule: data_writes.induct) auto

lemma no_data_split: "data_writes tr = [] \<Longrightarrow> tr \<noteq> pre @ Data d # post"
  by (auto simp: data_writes_append)

lemma poll_no_data: "data_writes (fst (poll buffree fbufsize rx)) = []"
proof (induction buffree fbufsize rx rule: poll.induct)
  case (1 buffree fbufsize rx)
  show ?case
  proof (cases "buffree \<le> fbufsize")
    case False
    then show ?thesis by (simp add: poll_release)
  next
    case True
    show ?thesis
    proof (cases "read_dec rx")
      case None
      with True show ?thesis by (simp add: poll_again)
    next
      case (Some a)
      show ?thesis
      proof (cases a)
        case (Inl e)
        with Some True show ?thesis by (simp add: poll_again)
      next
        case (Inr p)
        obtain v rx' where p: "p = (v, rx')" by (cases p)
        from "1.IH" [OF True Some Inr p [symmetric]] Some Inr p True
        show ?thesis by (auto simp: poll_again split: prod.splits)
      qed
    qed
  qed
qed

lemma poll_trace_end:
  "poll buffree fbufsize rx = (tr, Some (Inr rx')) \<Longrightarrow> buffree \<le> fbufsize \<Longrightarrow>
   \<exists>tr0 v. tr = tr0 @ [Usleep QUERY_DELAY, Command (DEVCOM_PREFIX @ ''B''), DecField v]
     \<and> fbufsize < size_t_of_int v"
proof (induction buffree fbufsize rx arbitrary: tr rule: poll.induct)
  case (1 buffree fbufsize rx)
  from "1.prems" obtain v rx1 tr1 where
    rd: "read_dec rx = Some (Inr (v, rx1))" and
    rec: "poll (size_t_of_int v) fbufsize rx1 = (tr1, Some (Inr rx'))" and
    tr: "tr = Usleep QUERY_DELAY # Command (DEVCOM_PREFIX @ ''B'') # DecField v # tr1"
    by (auto simp: poll_again split: option.splits sum.splits prod.splits)
  show ?case
  proof (cases "size_t_of_int v \<le> fbufsize")
    case True
    from "1.IH" [OF "1.prems"(2) rd refl refl rec True] obtain tr0 w where
      "tr1 = tr0 @ [Usleep QUERY_DELAY, Command (DEVCOM_PREFIX @ ''B''), DecField w]"
      "fbufsize < size_t_of_int w" by blast
    with tr have "tr = (Usleep QUERY_DELAY # Command (DEVCOM_PREFIX @ ''B'') # DecField v # tr0)
        @ [Usleep QUERY_DELAY, Command (DEVCOM_PREFIX @ ''B''), DecField w]
      \<and> fbufsize < size_t_of_int w" by simp
    then show ?thesis by blast
  next
    case False
    with rec have "tr1 = []" by (simp add: poll_release)
    with tr False have "tr = [] @ [Usleep QUERY_DELAY, Command (DEVCOM_PREFIX @ ''B''), DecField v]
      \<and> fbufsize < size_t_of_int v" by simp
    then show ?thesis by blast
  qed
qed

subsection \<open>Traces of the transfer loop\<close>

lemma spool_done: "feof f \<Longrightarrow> spool chunksize buffer f rx = ([], Some (Inr (f, rx)))"
  by (subst spool.simps) simp

lemma spool_step:
  "\<not> feof f \<Longrightarrow> spool chunksize buffer f rx =
     (case fread buffer (unat chunksize) f of
        (chunk, f') \<Rightarrow>
          (case poll 0 (of_nat (length chunk)) rx of
             (tr, None) \<Rightarrow> (tr, None)
           | (tr, Some (Inl e)) \<Rightarrow> (tr, Some (Inl e))
           | (tr, Some (Inr rx')) \<Rightarrow>
               (case spool chunksize buffer f' rx' of
                  (tr', r) \<Rightarrow> (tr @ Data chunk # tr', r))))"
  by (subst spool.simps) simp

lemma gate_prepend: "gate pre d \<Longrightarrow> gate (a @ pre) d"
  unfolding gate_def by (metis append.assoc)

lemma fread_length: "fread ptr nmemb f = (chunk, f') \<Longrightarrow> length chunk \<le> nmemb"
  by (auto simp: fread_def split: if_splits)

lemma spool_gated:
  "spool chunksize buffer f rx = (tr, r) \<Longrightarrow> tr = pre @ Data d # post \<Longrightarrow> gate pre d"
proof (induction chunksize buffer f rx arbitrary: tr r pre post rule: spool.induct)
  case (1 chunksize buffer f rx)
  show ?case
  proof (cases "feof f")
    case True
    with "1.prems" show ?thesis by (simp add: spool_done)
  next
    case False
    obtain chunk f' where fr: "fread buffer (unat chunksize) f = (chunk, f')"
      by (cases "fread buffer (unat chunksize) f")
    obtain trp rp where po: "poll 0 (of_nat (length chunk)) rx = (trp, rp)"
      by (cases "poll 0 (of_nat (length chunk) :: size_t) rx")
    have nodata: "data_writes trp = []" using poll_no_data [of 0 "of_nat (length chunk)" rx] po by simp
    show ?thesis
    proof (cases "\<exists>rx'. rp = Some (Inr rx')")
      case False
      with "1.prems"(1) fr po \<open>\<not> feof f\<close> have "tr = trp"
        by (auto simp: spool_step split: option.splits sum.splits)
      with nodata "1.prems"(2) show ?thesis using no_data_split by blast
    next
      case True
      then obtain rx' where rp: "rp = Some (Inr rx')" by blast
      obtain tr' r' where sp: "spool chunksize buffer f' rx' = (tr', r')"
        by (cases "spool chunksize buffer f' rx'")
      from "1.prems"(1) fr po rp sp \<open>\<not> feof f\<close> have tr: "tr = trp @ Data chunk # tr'"
        by (simp add: spool_step)
      from poll_trace_end [OF po [unfolded rp]] obtain tr0 v where
        e: "trp = tr0 @ [Usleep QUERY_DELAY, Command (DEVCOM_PREFIX @ ''B''), DecField v]"
        and lt: "(of_nat (length chunk) :: size_t) < size_t_of_int v" by auto
      have "unat (of_nat (length chunk) :: size_t) = length chunk"
        using fread_length [OF fr] by (rule le_unat_uoi)
      with lt have "length chunk < unat (size_t_of_int v)" by (simp add: word_less_nat_alt)
      with e have g: "gate trp chunk" unfolding gate_def by blast
      from tr "1.prems"(2) have eq: "trp @ Data chunk # tr' = pre @ Data d # post" by simp
      then consider (a) "trp = pre" "chunk = d"
        | (b) us where "trp = pre @ Data d # us"
        | (c) us where "pre = trp @ Data chunk # us" "tr' = us @ Data d # post"
        by (auto simp: append_eq_append_conv2 append_eq_Cons_conv Cons_eq_append_conv)
      then show ?thesis
      proof cases
        case a
        with g show ?thesis by simp
      next
        case b
        with nodata show ?thesis using no_data_split by blast
      next
        case c
        from "1.IH" [OF False fr [symmetric] po [symmetric] rp refl sp c(2)] have "gate us d" .
        then have "gate ((trp @ [Data chunk]) @ us) d" by (rule gate_prepend)
        with c(1) show ?thesis by simp
      qed
    qed
  qed
qed

lemma spool_data_bounded:
  "spool chunksize buffer f rx = (tr, r) \<Longrightarrow> d \<in> set (data_writes tr) \<Longrightarrow> length d \<le> unat chunksize"
proof (induction chunksize buffer f rx arbitrary: tr r rule: spool.induct)
  case (1 chunksize buffer f rx)
  show ?case
  proof (cases "feof f")
    case True
    with "1.prems" show ?thesis by (simp add: spool_done)
  next
    case False
    obtain chunk f' where fr: "fread buffer (unat chunksize) f = (chunk, f')"
      by (cases "fread buffer (unat chunksize) f")
    obtain trp rp where po: "poll 0 (of_nat (length chunk)) rx = (trp, rp)"
      by (cases "poll 0 (of_nat (length chunk) :: size_t) rx")
    have nodata: "data_writes trp = []" using poll_no_data [of 0 "of_nat (length chunk)" rx] po by simp
    show ?thesis
    proof (cases "\<exists>rx'. rp = Some (Inr rx')")
      case False
      with "1.prems"(1) fr po \<open>\<not> feof f\<close> have "tr = trp"
        by (auto simp: spool_step split: option.splits sum.splits)
      with nodata "1.prems"(2) show ?thesis by simp
    next
      case True
      then obtain rx' where rp: "rp = Some (Inr rx')" by blast
      obtain tr' r' where sp: "spool chunksize buffer f' rx' = (tr', r')"
        by (cases "spool chunksize buffer f' rx'")
      from "1.prems"(1) fr po rp sp \<open>\<not> feof f\<close> have tr: "tr = trp @ Data chunk # tr'"
        by (simp add: spool_step)
      with "1.prems"(2) nodata have "d = chunk \<or> d \<in> set (data_writes tr')"
        by (auto simp: data_writes_append)
      then show ?thesis
      proof
        assume "d = chunk"
        with fread_length [OF fr] show ?thesis by simp
      next
        assume "d \<in> set (data_writes tr')"
        from "1.IH" [OF False fr [symmetric] po [symmetric] rp refl sp this] show ?thesis .
      qed
    qed
  qed
qed

section \<open>The session\<close>

subsection \<open>The trace of main\<close>

text \<open>An event that occurs neither before nor after the middle part occurs in it.\<close>

lemma split_around:
  assumes a: "x \<notin> set a" and c: "x \<notin> set c"
    and eq: "a @ b @ c = pre @ x # post"
  shows "\<exists>pre1 post1. pre = a @ pre1 \<and> b = pre1 @ x # post1"
proof -
  from eq obtain us where
    "(a = pre @ us \<and> us @ b @ c = x # post) \<or> (a @ us = pre \<and> b @ c = us @ x # post)"
    by (auto simp: append_eq_append_conv2)
  then show ?thesis
  proof
    assume h: "a = pre @ us \<and> us @ b @ c = x # post"
    show ?thesis
    proof (cases us)
      case Nil
      with h have bc: "b @ c = x # post" and pre: "pre = a" by simp_all
      show ?thesis
      proof (cases b)
        case Nil
        with bc c show ?thesis by simp
      next
        case (Cons y ys)
        with bc pre show ?thesis by simp
      qed
    next
      case (Cons y ys)
      with h have "a = pre @ x # ys" by simp
      with a show ?thesis by simp
    qed
  next
    assume h: "a @ us = pre \<and> b @ c = us @ x # post"
    then obtain ws where
      "(b = us @ ws \<and> ws @ c = x # post) \<or> (b @ ws = us \<and> c = ws @ x # post)"
      by (auto simp: append_eq_append_conv2)
    then show ?thesis
    proof
      assume k: "b = us @ ws \<and> ws @ c = x # post"
      show ?thesis
      proof (cases ws)
        case Nil
        with k c show ?thesis by simp
      next
        case (Cons y ys)
        with k h show ?thesis by auto
      qed
    next
      assume "b @ ws = us \<and> c = ws @ x # post"
      with c show ?thesis by simp
    qed
  qed
qed

lemma no_data_mem: "data_writes tr = [] \<Longrightarrow> Data d \<notin> set tr"
  by (induction tr rule: data_writes.induct) auto

lemma split_middle:
  "data_writes a = [] \<Longrightarrow> data_writes c = [] \<Longrightarrow> a @ b @ c = pre @ Data d # post \<Longrightarrow>
   \<exists>pre1 post1. pre = a @ pre1 \<and> b = pre1 @ Data d # post1"
  by (rule split_around) (simp_all add: no_data_mem)

lemma main_init_no_data: "data_writes (fst (main_init verbose rx)) = []"
  by (auto simp: main_init_def init_sequence_def start_sequence_def Let_def
      split: option.splits sum.splits prod.splits)

lemma main_init_chunksize:
  "main_init verbose rx = (tri, Some (Inr (c, rx1))) \<Longrightarrow> read_dec rx = Some (Inr (v, rx0)) \<Longrightarrow>
   c = chunksize_of (size_t_of_int v)"
  by (auto simp: main_init_def Let_def split: option.splits sum.splits prod.splits if_splits)

lemma main_split:
  "\<exists>trs tail. fst (main malloc verbose input rx) = fst (main_init verbose rx) @ trs @ tail
     \<and> (tail = [] \<or> tail = [Command (DEVCOM_PREFIX @ '')'')])
     \<and> (trs = [] \<or> (\<exists>c rx1 r. snd (main_init verbose rx) = Some (Inr (c, rx1))
            \<and> spool c (malloc c) \<lparr>unread = input, at_eof = False\<rparr> rx1 = (trs, r)))"
proof (cases "main_init verbose rx")
  case (Pair tri ri)
  show ?thesis
  proof (cases "\<exists>c rx1. ri = Some (Inr (c, rx1))")
    case False
    with Pair have "fst (main malloc verbose input rx) = tri @ [] @ []"
      by (auto simp: main_def next_run_def split: option.splits sum.splits)
    with Pair show ?thesis by force
  next
    case True
    then obtain c rx1 where ri: "ri = Some (Inr (c, rx1))" by blast
    obtain trs r where sp: "spool c (malloc c) \<lparr>unread = input, at_eof = False\<rparr> rx1 = (trs, r)"
      by (cases "spool c (malloc c) \<lparr>unread = input, at_eof = False\<rparr> rx1")
    have "\<exists>tail. fst (main malloc verbose input rx) = tri @ trs @ tail
        \<and> (tail = [] \<or> tail = [Command (DEVCOM_PREFIX @ '')'')])"
      using Pair ri sp
      by (auto simp: main_def next_run_def main_shutdown_def split: option.splits sum.splits)
    with Pair ri sp show ?thesis by force
  qed
qed

lemma main_gated:
  assumes "fst (main malloc verbose input rx) = pre @ Data d # post"
  shows "gate pre d"
proof -
  from main_split [of malloc verbose input rx] obtain trs tail where
    tr: "fst (main malloc verbose input rx) = fst (main_init verbose rx) @ trs @ tail" and
    tl: "tail = [] \<or> tail = [Command (DEVCOM_PREFIX @ '')'')]" and
    trs: "trs = [] \<or> (\<exists>c rx1 r. snd (main_init verbose rx) = Some (Inr (c, rx1))
            \<and> spool c (malloc c) \<lparr>unread = input, at_eof = False\<rparr> rx1 = (trs, r))"
    by blast
  from tl have tail: "data_writes tail = []" by auto
  from split_middle [OF main_init_no_data tail] tr assms obtain pre1 post1 where
    p: "pre = fst (main_init verbose rx) @ pre1" "trs = pre1 @ Data d # post1" by metis
  with trs obtain c rx1 r where "spool c (malloc c) \<lparr>unread = input, at_eof = False\<rparr> rx1 = (trs, r)"
    by auto
  from spool_gated [OF this p(2)] have "gate pre1 d" .
  with p(1) show ?thesis by (simp add: gate_prepend)
qed

lemma main_data_bounded:
  assumes rd: "read_dec rx = Some (Inr (v, rx0))"
    and d: "d \<in> set (data_writes (fst (main malloc verbose input rx)))"
  shows "length d \<le> unat (chunksize_of (size_t_of_int v))"
proof -
  from main_split [of malloc verbose input rx] obtain trs tail where
    tr: "fst (main malloc verbose input rx) = fst (main_init verbose rx) @ trs @ tail" and
    tl: "tail = [] \<or> tail = [Command (DEVCOM_PREFIX @ '')'')]" and
    trs: "trs = [] \<or> (\<exists>c rx1 r. snd (main_init verbose rx) = Some (Inr (c, rx1))
            \<and> spool c (malloc c) \<lparr>unread = input, at_eof = False\<rparr> rx1 = (trs, r))"
    by blast
  from tl have tail: "data_writes tail = []" by auto
  from tr tail d have d': "d \<in> set (data_writes trs)"
    by (simp add: data_writes_append main_init_no_data)
  with trs obtain c rx1 r where
    mi: "snd (main_init verbose rx) = Some (Inr (c, rx1))" and
    sp: "spool c (malloc c) \<lparr>unread = input, at_eof = False\<rparr> rx1 = (trs, r)"
    by auto
  from mi have "main_init verbose rx = (fst (main_init verbose rx), Some (Inr (c, rx1)))"
    by (metis prod.collapse)
  from main_init_chunksize [OF this rd] have "c = chunksize_of (size_t_of_int v)" .
  with spool_data_bounded [OF sp d'] show ?thesis by simp
qed

subsection \<open>Sizes\<close>

lemma unat_word_of_int_64:
  "0 \<le> k \<Longrightarrow> k < 2 ^ 64 \<Longrightarrow> unat (word_of_int k :: size_t) = nat k"
  by (simp add: unat_eq_nat_uint uint_word_of_int)

lemma unat_size_t_of_int: "0 \<le> sint v \<Longrightarrow> unat (size_t_of_int v) = nat (sint v)"
proof -
  assume nn: "0 \<le> sint v"
  have "sint v < 2 ^ 31" using sint_lt [of v] by simp
  then have lt: "sint v < 2 ^ 64" by simp
  have "size_t_of_int v = word_of_int (sint v)"
    unfolding size_t_of_int_def by (rule scast_eq)
  then have "unat (size_t_of_int v) = unat (word_of_int (sint v) :: size_t)" by (rule arg_cong)
  also have "\<dots> = nat (sint v)" using nn lt by (rule unat_word_of_int_64)
  finally show ?thesis .
qed

lemma unat_chunksize_of: "unat (chunksize_of b) = unat b div 2"
  by (simp add: chunksize_of_def unat_div)


subsection \<open>Concrete sessions\<close>

lemma read_asc_loop_response:
  "DEVCOM_TERM \<notin> set bs \<Longrightarrow> length buf = READBUFSIZE \<Longrightarrow> pos + length bs < READBUFSIZE \<Longrightarrow>
   read_asc_loop buf pos (map Some bs @ Some DEVCOM_TERM # rx)
     = Some (Inr (c_str (take pos buf @ bs), rx))"
proof (induction bs arbitrary: buf pos)
  case Nil
  then have "buf[pos := NUL] = take pos buf @ NUL # drop (Suc pos) buf"
    by (simp add: upd_conv_take_nth_drop)
  then show ?case using Nil by (simp add: c_str_append_NUL)
next
  case (Cons b bs)
  have "take (Suc pos) (buf[pos := b]) = take pos buf @ [b]"
    using Cons.prems by (simp add: take_Suc_conv_app_nth)
  with Cons.IH [of "buf[pos := b]" "Suc pos"] Cons.prems show ?case by auto
qed

lemma read_asc_response:
  "DEVCOM_TERM \<notin> set s \<Longrightarrow> length s < READBUFSIZE \<Longrightarrow>
   read_asc (response s @ rx) = Some (Inr (c_str s, rx))"
  using read_asc_loop_response [of s "replicate READBUFSIZE NUL" 0 rx]
  by (simp add: read_asc_def response_def)

lemmas main_simps = main_def main_init_def main_shutdown_def next_run_def spool_done spool_step
  fread_def feof_def chunksize_of_def init_sequence_def start_sequence_def Let_def
  read_asc_response c_str_def NUL_def



lemma small_run:
  "main (\<lambda>n. Allocated) False ''ABC'' (response ''100'' @ response ''100'') =
   ([Command (DEVCOM_PREFIX @ ''(''), Command (DEVCOM_PREFIX @ ''R''),
     Command (DEVCOM_PREFIX @ ''L''), DecField 100,
     Command (DEVCOM_PREFIX @ ''L''), Command (DEVCOM_PREFIX @ ''L''),
     Command (DEVCOM_PREFIX @ ''U''),
     Usleep QUERY_DELAY, Command (DEVCOM_PREFIX @ ''B''), DecField 100, Data ''ABC'',
     Command (DEVCOM_PREFIX @ '')'')], Some (Inl FreeUninitialised))"
  by (simp add: run_simps main_simps cong: prod.case_cong_weak)

subsection \<open>Chunk size\<close>

text \<open>
  Claim C4 (chunk size). When the capacity query is answered with \<open>C > 1\<close> (the \<open>int\<close>
  that \<open>read_dec\<close> returns), the chunk size that the init phase hands to the transfer loop
  is \<open>C div 2\<close>, and no data write of the session is longer than that; a capacity of 100
  gives the chunk size 50.
\<close>

theorem chunk_size_half_capacity:
  "read_dec rx = Some (Inr (C, rx0)) \<Longrightarrow> 1 < sint C \<Longrightarrow>
   (\<forall>tri chunksize rx1. main_init verbose rx = (tri, Some (Inr (chunksize, rx1)))
      \<longrightarrow> unat chunksize = nat (sint C) div 2)
   \<and> (\<forall>d \<in> set (data_writes (fst (main malloc verbose input rx))). length d \<le> nat (sint C) div 2)
   \<and> chunksize_of (size_t_of_int 100) = 50"
proof -
  assume rd: "read_dec rx = Some (Inr (C, rx0))" and C: "1 < sint C"
  have half: "unat (chunksize_of (size_t_of_int C)) = nat (sint C) div 2"
    using C by (simp add: unat_chunksize_of unat_size_t_of_int)
  have "unat chunksize = nat (sint C) div 2"
    if mi: "main_init verbose rx = (tri, Some (Inr (chunksize, rx1)))" for tri chunksize rx1
    using main_init_chunksize [OF mi rd] half by simp
  moreover have "length d \<le> nat (sint C) div 2"
    if "d \<in> set (data_writes (fst (main malloc verbose input rx)))" for d
    using main_data_bounded [OF rd that] half by simp
  moreover have "chunksize_of (size_t_of_int 100) = 50"
    by (simp add: chunksize_of_def size_t_of_int_def)
  ultimately show ?thesis by blast
qed

theorem chunk_size_half_capacity_witness:
  "read_dec (response ''100'' @ response ''100'') = Some (Inr (100, response ''100'')) \<and>
   1 < sint (100 :: cint) \<and>
   main_init False (response ''100'' @ response ''100'')
     = (init_sequence @ [DecField 100] @ start_sequence, Some (Inr (50, response ''100''))) \<and>
   unat (50 :: size_t) = nat (sint (100 :: cint)) div 2 \<and>
   data_writes (fst (main (\<lambda>n. Allocated) False ''ABC'' (response ''100'' @ response ''100''))) = [''ABC''] \<and>
   length ''ABC'' \<le> nat (sint (100 :: cint)) div 2"
proof -
  have rd: "read_dec (response ''100'' @ response ''100'') = Some (Inr (100, response ''100''))"
    by (simp add: run_simps)
  have C: "1 < sint (100 :: cint)" by simp
  have mi: "main_init False (response ''100'' @ response ''100'')
     = (init_sequence @ [DecField 100] @ start_sequence, Some (Inr (50, response ''100'')))"
    by (simp add: main_init_def rd size_t_examples chunksize_of_def)
  have dw: "data_writes (fst (main (\<lambda>n. Allocated) False ''ABC'' (response ''100'' @ response ''100''))) = [''ABC'']"
    by (simp add: small_run DEVCOM_PREFIX_def)
  from chunk_size_half_capacity [OF rd C, of False "\<lambda>n. Allocated" "''ABC''"] mi dw
  have "unat (50 :: size_t) = nat (sint (100 :: cint)) div 2"
    and "length ''ABC'' \<le> nat (sint (100 :: cint)) div 2"
    by auto
  with rd C mi dw show ?thesis by blast
qed

subsection \<open>No write before a sufficient answer\<close>

text \<open>
  Claim C2 (write only after a sufficient poll). Every data write of \<open>n\<close> bytes in the
  trace of a session comes directly after a free-space query of the same loop iteration
  (delay, \<open>ESC . B\<close>, the answer read) whose answer, as stored in \<open>buffree\<close>, is at least
  \<open>n\<close>. For a chunk of 50 bytes and the answers 10, 10, 60 the loop polls three times and
  releases after the third.
\<close>

theorem write_after_sufficient_poll:
  "fst (main malloc verbose input rx) = pre @ Data d # post \<Longrightarrow>
   (\<exists>pre' v. pre = pre' @ [Usleep QUERY_DELAY, Command (DEVCOM_PREFIX @ ''B''), DecField v]
      \<and> length d \<le> unat (size_t_of_int v))
   \<and> poll 0 50 (response ''10'' @ response ''10'' @ response ''60'') =
       ([Usleep QUERY_DELAY, Command (DEVCOM_PREFIX @ ''B''), DecField 10,
         Usleep QUERY_DELAY, Command (DEVCOM_PREFIX @ ''B''), DecField 10,
         Usleep QUERY_DELAY, Command (DEVCOM_PREFIX @ ''B''), DecField 60], Some (Inr []))"
proof -
  assume "fst (main malloc verbose input rx) = pre @ Data d # post"
  then have "gate pre d" by (rule main_gated)
  then obtain pre' v where
    "pre = pre' @ [Usleep QUERY_DELAY, Command (DEVCOM_PREFIX @ ''B''), DecField v]"
    "length d < unat (size_t_of_int v)"
    unfolding gate_def by blast
  then have "pre = pre' @ [Usleep QUERY_DELAY, Command (DEVCOM_PREFIX @ ''B''), DecField v]
      \<and> length d \<le> unat (size_t_of_int v)" by simp
  then have "\<exists>pre' v. pre = pre' @ [Usleep QUERY_DELAY, Command (DEVCOM_PREFIX @ ''B''), DecField v]
      \<and> length d \<le> unat (size_t_of_int v)" by blast
  moreover have "poll 0 50 (response ''10'' @ response ''10'' @ response ''60'') =
       ([Usleep QUERY_DELAY, Command (DEVCOM_PREFIX @ ''B''), DecField 10,
         Usleep QUERY_DELAY, Command (DEVCOM_PREFIX @ ''B''), DecField 10,
         Usleep QUERY_DELAY, Command (DEVCOM_PREFIX @ ''B''), DecField 60], Some (Inr []))"
    by (simp add: run_simps)
  ultimately show ?thesis by blast
qed

theorem write_after_sufficient_poll_witness:
  "fst (main (\<lambda>n. Allocated) False ''ABC'' (response ''100'' @ response ''100'')) =
     [Command (DEVCOM_PREFIX @ ''(''), Command (DEVCOM_PREFIX @ ''R''),
      Command (DEVCOM_PREFIX @ ''L''), DecField 100,
      Command (DEVCOM_PREFIX @ ''L''), Command (DEVCOM_PREFIX @ ''L''),
      Command (DEVCOM_PREFIX @ ''U''),
      Usleep QUERY_DELAY, Command (DEVCOM_PREFIX @ ''B''), DecField 100]
     @ Data ''ABC'' # [Command (DEVCOM_PREFIX @ '')'')] \<and>
   (\<exists>pre' v.
      [Command (DEVCOM_PREFIX @ ''(''), Command (DEVCOM_PREFIX @ ''R''),
       Command (DEVCOM_PREFIX @ ''L''), DecField 100,
       Command (DEVCOM_PREFIX @ ''L''), Command (DEVCOM_PREFIX @ ''L''),
       Command (DEVCOM_PREFIX @ ''U''),
       Usleep QUERY_DELAY, Command (DEVCOM_PREFIX @ ''B''), DecField 100]
      = pre' @ [Usleep QUERY_DELAY, Command (DEVCOM_PREFIX @ ''B''), DecField v]
      \<and> length ''ABC'' \<le> unat (size_t_of_int v))"
proof -
  have h: "fst (main (\<lambda>n. Allocated) False ''ABC'' (response ''100'' @ response ''100'')) =
     [Command (DEVCOM_PREFIX @ ''(''), Command (DEVCOM_PREFIX @ ''R''),
      Command (DEVCOM_PREFIX @ ''L''), DecField 100,
      Command (DEVCOM_PREFIX @ ''L''), Command (DEVCOM_PREFIX @ ''L''),
      Command (DEVCOM_PREFIX @ ''U''),
      Usleep QUERY_DELAY, Command (DEVCOM_PREFIX @ ''B''), DecField 100]
     @ Data ''ABC'' # [Command (DEVCOM_PREFIX @ '')'')]"
    by (simp add: small_run)
  from write_after_sufficient_poll [OF h] h show ?thesis by blast
qed

section \<open>The data phase writes the input\<close>

subsection \<open>Answers and chunks\<close>

lemma atoi_more: "atoi ''2'' = 2" "atoi ''3'' = 3" by code_simp+

lemma answers_step:
  "read_dec rx = Some (Inr (v, rx')) \<Longrightarrow> answers rx = size_t_of_int v # answers rx'"
  by (subst answers.simps) simp

lemma answers_stop:
  "read_dec rx = None \<Longrightarrow> answers rx = []"
  "read_dec rx = Some (Inl e) \<Longrightarrow> answers rx = []"
  by (subst answers.simps, simp)+

lemma poll_answers:
  "dropWhile (\<lambda>v. v \<le> n) (answers rx) = v # vs \<Longrightarrow>
   \<exists>tr rx'. poll 0 n rx = (tr, Some (Inr rx')) \<and> answers rx' = vs"
proof (induction rx rule: answers.induct)
  case (1 rx)
  show ?case
  proof (cases "read_dec rx")
    case None
    with "1.prems" show ?thesis by (simp add: answers_stop)
  next
    case (Some a)
    show ?thesis
    proof (cases a)
      case (Inl e)
      with Some "1.prems" show ?thesis by (simp add: answers_stop)
    next
      case (Inr p)
      obtain w rx1 where p: "p = (w, rx1)" by (cases p)
      with Some Inr have rd: "read_dec rx = Some (Inr (w, rx1))" by simp
      have ans: "answers rx = size_t_of_int w # answers rx1" using rd by (rule answers_step)
      show ?thesis
      proof (cases "size_t_of_int w \<le> n")
        case True
        with "1.prems" ans have "dropWhile (\<lambda>v. v \<le> n) (answers rx1) = v # vs" by simp
        from "1.IH" [OF Some Inr p [symmetric] this] obtain tr rx' where
          "poll 0 n rx1 = (tr, Some (Inr rx'))" "answers rx' = vs" by blast
        with rd True show ?thesis
          by (simp add: poll_again [of 0 n rx] poll_below [of "size_t_of_int w" n rx1])
      next
        case False
        with "1.prems" ans have "answers rx1 = vs" by simp
        with rd False show ?thesis
          by (simp add: poll_again [of 0 n rx] poll_release)
      qed
    qed
  qed
qed

lemma chunks_last: "length xs < c \<Longrightarrow> chunks c xs = [xs]"
  by (subst chunks.simps) simp

lemma chunks_full:
  "0 < c \<Longrightarrow> c \<le> length xs \<Longrightarrow> chunks c xs = take c xs # chunks c (drop c xs)"
  by (subst chunks.simps) simp

lemma concat_chunks: "concat (chunks c xs) = xs"
proof (induction c xs rule: chunks.induct)
  case (1 c xs)
  show ?case
  proof (cases "c = 0 \<or> length xs < c")
    case True
    then show ?thesis by (subst chunks.simps) simp
  next
    case False
    with "1.IH" show ?thesis by (subst chunks.simps) simp
  qed
qed

lemma chunks_bounded: "0 < c \<Longrightarrow> d \<in> set (chunks c xs) \<Longrightarrow> length d \<le> c"
proof (induction c xs rule: chunks.induct)
  case (1 c xs)
  show ?case
  proof (cases "length xs < c")
    case True
    with "1.prems" show ?thesis by (simp add: chunks_last)
  next
    case False
    with "1.prems" have "d = take c xs \<or> d \<in> set (chunks c (drop c xs))"
      by (simp add: chunks_full)
    with "1.IH" "1.prems"(1) False show ?thesis by auto
  qed
qed

lemma chunks_not_Nil: "chunks c xs \<noteq> []"
  by (subst chunks.simps) simp

lemma chunks_butlast_full:
  "0 < c \<Longrightarrow> d \<in> set (butlast (chunks c xs)) \<Longrightarrow> length d = c"
proof (induction c xs rule: chunks.induct)
  case (1 c xs)
  show ?case
  proof (cases "length xs < c")
    case True
    with "1.prems" show ?thesis by (simp add: chunks_last)
  next
    case False
    with "1.prems" have "d = take c xs \<or> d \<in> set (butlast (chunks c (drop c xs)))"
      by (simp add: chunks_full chunks_not_Nil)
    with "1.IH" "1.prems"(1) False show ?thesis by auto
  qed
qed

subsection \<open>The transfer loop on an input\<close>

lemma spool_chunks:
  "0 < unat chunksize \<Longrightarrow> \<not> at_eof f \<Longrightarrow>
   releases (answers rx) (map length (chunks (unat chunksize) (unread f))) \<Longrightarrow>
   \<exists>tr f' rx'. spool chunksize Allocated f rx = (tr, Some (Inr (f', rx')))
      \<and> data_writes tr = chunks (unat chunksize) (unread f) \<and> unread f' = []"
proof (induction c\<equiv>"unat chunksize" xs\<equiv>"unread f" arbitrary: f rx rule: chunks.induct)
  case (1 f rx)
  let ?c = "unat chunksize"
  let ?xs = "unread f"
  obtain buf f1 where fr: "fread Allocated ?c f = (buf, f1)" by (cases "fread Allocated ?c f")
  then have buf: "buf = take ?c ?xs" and f1: "unread f1 = drop ?c ?xs"
    and eof1: "at_eof f1 = (at_eof f \<or> length ?xs < ?c)"
    by (auto simp: fread_def)
  have w: "unat (of_nat (length buf) :: size_t) = length buf"
    by (rule le_unat_uoi [of _ chunksize]) (simp add: buf)
  have cmp: "(\<lambda>v :: size_t. v \<le> of_nat (length buf)) = (\<lambda>v. unat v \<le> length buf)"
    by (simp only: word_le_nat_alt w)
  from "1.prems"(2) have nf: "\<not> feof f" by (simp add: feof_def)
  show ?case
  proof (cases "length ?xs < ?c")
    case True
    then have ch: "chunks ?c ?xs = [?xs]" by (rule chunks_last)
    from True buf have bx: "buf = ?xs" by simp
    from "1.prems"(3) ch obtain v vs where
      "dropWhile (\<lambda>v. unat v \<le> length buf) (answers rx) = v # vs"
      by (auto simp: bx split: list.splits)
    with cmp have "dropWhile (\<lambda>v. v \<le> of_nat (length buf)) (answers rx) = v # vs" by simp
    from poll_answers [OF this] obtain tr rx' where
      po: "poll 0 (of_nat (length buf)) rx = (tr, Some (Inr rx'))" by blast
    from True eof1 have "feof f1" by (simp add: feof_def)
    then have "spool chunksize Allocated f1 rx' = ([], Some (Inr (f1, rx')))" by (rule spool_done)
    with nf fr po have "spool chunksize Allocated f rx = (tr @ [Data buf], Some (Inr (f1, rx')))"
      by (simp add: spool_step)
    moreover have "data_writes tr = []"
      using poll_no_data [of 0 "of_nat (length buf)" rx] po by simp
    ultimately show ?thesis using ch bx f1 True by (simp add: data_writes_append)
  next
    case False
    with "1.prems"(1) have ch: "chunks ?c ?xs = buf # chunks ?c (drop ?c ?xs)"
      by (simp add: chunks_full buf)
    from "1.prems"(3) ch obtain v vs where
      dw: "dropWhile (\<lambda>v. unat v \<le> length buf) (answers rx) = v # vs" and
      rel: "releases vs (map length (chunks ?c (drop ?c ?xs)))"
      by (auto split: list.splits)
    from dw cmp have "dropWhile (\<lambda>v. v \<le> of_nat (length buf)) (answers rx) = v # vs" by simp
    from poll_answers [OF this] obtain tr rx' where
      po: "poll 0 (of_nat (length buf)) rx = (tr, Some (Inr rx'))" and
      ans: "answers rx' = vs" by blast
    have c1: "\<not> (?c = 0 \<or> length ?xs < ?c)" using "1.prems"(1) False by simp
    have c2: "drop ?c ?xs = unread f1" using f1 by simp
    have c3: "\<not> at_eof f1" using "1.prems"(2) False eof1 by simp
    have c4: "releases (answers rx') (map length (chunks ?c (unread f1)))"
      using rel ans f1 by simp
    from "1.hyps" [OF c1 c2 "1.prems"(1) c3 c4] obtain tr' f'' rx'' where
      sp: "spool chunksize Allocated f1 rx' = (tr', Some (Inr (f'', rx'')))" and
      dw': "data_writes tr' = chunks ?c (unread f1)" and
      un: "unread f'' = []"
      by blast
    from nf fr po sp have "spool chunksize Allocated f rx = (tr @ Data buf # tr', Some (Inr (f'', rx'')))"
      by (simp add: spool_step)
    moreover have "data_writes tr = []"
      using poll_no_data [of 0 "of_nat (length buf)" rx] po by simp
    ultimately show ?thesis using ch dw' un f1 by (simp add: data_writes_append)
  qed
qed

text \<open>
  Claim C1 (all bytes, in chunks), as the code has it. With a chunk size of at least 1
  and a buffer that \<open>malloc\<close> delivered, and when every poll loop finds an answer greater
  than the byte count of its chunk (\<open>releases\<close>), the transfer loop returns, and its data
  writes are consecutive pieces of the input that together are the whole input: \<open>L\<close>
  bytes in total, every write at most the chunk size long and every write but the last
  exactly that long. (The last write is empty when \<open>L\<close> is a multiple of the chunk size.)
\<close>

theorem spool_writes_input:
  "0 < chunksize \<Longrightarrow>
   releases (answers rx) (map length (chunks (unat chunksize) input)) \<Longrightarrow>
   \<exists>tr f rx'. spool chunksize Allocated \<lparr>unread = input, at_eof = False\<rparr> rx = (tr, Some (Inr (f, rx')))
     \<and> data_writes tr = chunks (unat chunksize) input
     \<and> concat (data_writes tr) = input
     \<and> length (concat (data_writes tr)) = length input
     \<and> (\<forall>d \<in> set (data_writes tr). length d \<le> unat chunksize)
     \<and> (\<forall>d \<in> set (butlast (data_writes tr)). length d = unat chunksize)"
proof -
  assume c: "0 < chunksize"
    and r: "releases (answers rx) (map length (chunks (unat chunksize) input))"
  from c have c': "0 < unat chunksize" by (simp add: word_less_nat_alt)
  from spool_chunks [of chunksize "\<lparr>unread = input, at_eof = False\<rparr>" rx] c' r
  obtain tr f rx' where
    sp: "spool chunksize Allocated \<lparr>unread = input, at_eof = False\<rparr> rx = (tr, Some (Inr (f, rx')))" and
    dw: "data_writes tr = chunks (unat chunksize) input"
    by auto
  from dw have "concat (data_writes tr) = input" by (simp add: concat_chunks)
  moreover from dw c' have "\<forall>d \<in> set (data_writes tr). length d \<le> unat chunksize"
    by (simp add: chunks_bounded)
  moreover from dw c' have "\<forall>d \<in> set (butlast (data_writes tr)). length d = unat chunksize"
    by (simp add: chunks_butlast_full)
  ultimately show ?thesis using sp dw by simp
qed

lemmas spool_simps = spool_done spool_step fread_def feof_def

theorem spool_writes_input_witness:
  "(0 :: size_t) < 3 \<and>
   releases (answers (response ''9'' @ response ''2'' @ response ''9'' @ response ''9''))
     (map length (chunks (unat (3 :: size_t)) ''ABCDEFGH'')) \<and>
   spool 3 Allocated \<lparr>unread = ''ABCDEFGH'', at_eof = False\<rparr>
       (response ''9'' @ response ''2'' @ response ''9'' @ response ''9'')
     = ([Usleep QUERY_DELAY, Command (DEVCOM_PREFIX @ ''B''), DecField 9, Data ''ABC'',
         Usleep QUERY_DELAY, Command (DEVCOM_PREFIX @ ''B''), DecField 2,
         Usleep QUERY_DELAY, Command (DEVCOM_PREFIX @ ''B''), DecField 9, Data ''DEF'',
         Usleep QUERY_DELAY, Command (DEVCOM_PREFIX @ ''B''), DecField 9, Data ''GH''],
        Some (Inr (\<lparr>unread = [], at_eof = True\<rparr>, []))) \<and>
   concat (data_writes (fst (spool 3 Allocated \<lparr>unread = ''ABCDEFGH'', at_eof = False\<rparr>
       (response ''9'' @ response ''2'' @ response ''9'' @ response ''9'')))) = ''ABCDEFGH'' \<and>
   list_all (\<lambda>d. length d \<le> unat (3 :: size_t))
       (data_writes (fst (spool 3 Allocated \<lparr>unread = ''ABCDEFGH'', at_eof = False\<rparr>
       (response ''9'' @ response ''2'' @ response ''9'' @ response ''9''))))"
proof -
  have c: "(0 :: size_t) < 3" by simp
  have ch: "chunks 3 ''ABCDEFGH'' = [''ABC'', ''DEF'', ''GH'']"
    by (simp add: chunks_full chunks_last)
  have an: "answers (response ''9'' @ response ''2'' @ response ''9'' @ response ''9'')
      = [9, 2, 9, 9]"
    by (simp add: answers_step answers_stop run_simps atoi_more size_t_of_int_def)
  have r: "releases (answers (response ''9'' @ response ''2'' @ response ''9'' @ response ''9''))
     (map length (chunks (unat (3 :: size_t)) ''ABCDEFGH''))"
    by (simp add: ch an)
  have sp: "spool 3 Allocated \<lparr>unread = ''ABCDEFGH'', at_eof = False\<rparr>
       (response ''9'' @ response ''2'' @ response ''9'' @ response ''9'')
     = ([Usleep QUERY_DELAY, Command (DEVCOM_PREFIX @ ''B''), DecField 9, Data ''ABC'',
         Usleep QUERY_DELAY, Command (DEVCOM_PREFIX @ ''B''), DecField 2,
         Usleep QUERY_DELAY, Command (DEVCOM_PREFIX @ ''B''), DecField 9, Data ''DEF'',
         Usleep QUERY_DELAY, Command (DEVCOM_PREFIX @ ''B''), DecField 9, Data ''GH''],
        Some (Inr (\<lparr>unread = [], at_eof = True\<rparr>, [])))"
    by (simp add: run_simps spool_simps atoi_more size_t_of_int_def cong: prod.case_cong_weak)
  from spool_writes_input [OF c r] obtain tr where
    "fst (spool 3 Allocated \<lparr>unread = ''ABCDEFGH'', at_eof = False\<rparr>
       (response ''9'' @ response ''2'' @ response ''9'' @ response ''9'')) = tr"
    "concat (data_writes tr) = ''ABCDEFGH''"
    "list_all (\<lambda>d. length d \<le> unat (3 :: size_t)) (data_writes tr)"
    by (auto simp: list_all_iff)
  then have "concat (data_writes (fst (spool 3 Allocated \<lparr>unread = ''ABCDEFGH'', at_eof = False\<rparr>
       (response ''9'' @ response ''2'' @ response ''9'' @ response ''9'')))) = ''ABCDEFGH''"
    "list_all (\<lambda>d. length d \<le> unat (3 :: size_t))
       (data_writes (fst (spool 3 Allocated \<lparr>unread = ''ABCDEFGH'', at_eof = False\<rparr>
       (response ''9'' @ response ''2'' @ response ''9'' @ response ''9''))))"
    by simp_all
  with c r sp show ?thesis by blast
qed


text \<open>
  The claim as the specification words it fails. There a polled value is sufficient when
  it is at least the byte count of the chunk (claims C2 and C3); the loop releases on a
  greater value only. For a chunk size of 3, the input \<open>ABC\<close> and a plotter that answers
  every poll with 3, every answer is sufficient in the specification's sense, and the
  transfer loop polls again after each of them and writes nothing.
\<close>

theorem exact_answers_counterexample:
  "answers (response ''3'' @ response ''3'' @ response ''3'') = [3, 3, 3] \<and>
   spool 3 Allocated \<lparr>unread = ''ABC'', at_eof = False\<rparr>
       (response ''3'' @ response ''3'' @ response ''3'') =
     ([Usleep QUERY_DELAY, Command (DEVCOM_PREFIX @ ''B''), DecField 3,
       Usleep QUERY_DELAY, Command (DEVCOM_PREFIX @ ''B''), DecField 3,
       Usleep QUERY_DELAY, Command (DEVCOM_PREFIX @ ''B''), DecField 3,
       Usleep QUERY_DELAY, Command (DEVCOM_PREFIX @ ''B'')], None)"
  by (simp add: answers_step answers_stop run_simps spool_simps atoi_more size_t_of_int_def
      cong: prod.case_cong_weak)

text \<open>
  The same holds however many such answers the plotter gives: no chunk is released and no
  byte is written.
\<close>

lemma poll_exact_answers:
  "buffree \<le> 3 \<Longrightarrow>
   snd (poll buffree 3 (concat (replicate k (response ''3'')))) = None"
proof (induction k arbitrary: buffree)
  case 0
  then show ?case by (simp add: poll_again read_dec_silent)
next
  case (Suc k)
  have rd: "read_dec (response ''3'' @ concat (replicate k (response ''3'')))
      = Some (Inr (3, concat (replicate k (response ''3''))))"
    by (simp add: read_dec_response atoi_more DEVCOM_TERM_def READBUFSIZE_def)
  have "size_t_of_int 3 \<le> 3" by (simp add: size_t_of_int_def)
  from Suc.IH [OF this] Suc.prems rd show ?case
    by (auto simp: poll_again split: prod.splits)
qed

lemma exact_answers_never_release:
  "snd (spool 3 Allocated \<lparr>unread = ''ABC'', at_eof = False\<rparr>
         (concat (replicate k (response ''3'')))) = None \<and>
   data_writes (fst (spool 3 Allocated \<lparr>unread = ''ABC'', at_eof = False\<rparr>
         (concat (replicate k (response ''3''))))) = []"
proof -
  let ?rx = "concat (replicate k (response ''3''))"
  obtain tr r where po: "poll 0 3 ?rx = (tr, r)" by (cases "poll 0 3 ?rx")
  with poll_exact_answers [of 0 k] have r: "r = None" by simp
  have nd: "data_writes tr = []" using poll_no_data [of 0 3 ?rx] po by simp
  from po r have "spool 3 Allocated \<lparr>unread = ''ABC'', at_eof = False\<rparr> ?rx = (tr, None)"
    by (simp add: spool_step [where f = "\<lparr>unread = ''ABC'', at_eof = False\<rparr>"
          and chunksize = 3 and buffer = Allocated and rx = ?rx] fread_def feof_def)
  with nd show ?thesis by simp
qed

text \<open>
  The two conditions of the theorem leave out what the loop does without them. With a
  chunk size of 0, and with a null buffer (here the chunk size \<open>2 ^ 63 - 1\<close> of the capacity
  answer \<open>-2\<close>, which no \<open>malloc\<close> delivers), no byte of the input is read or written and
  the loop does not end, although every poll is answered with a greater value.
\<close>

lemma zero_chunk_run:
  "spool 0 Allocated \<lparr>unread = ''A'', at_eof = False\<rparr>
       (response ''9'' @ response ''9'' @ response ''9'') =
   ([Usleep QUERY_DELAY, Command (DEVCOM_PREFIX @ ''B''), DecField 9, Data [],
     Usleep QUERY_DELAY, Command (DEVCOM_PREFIX @ ''B''), DecField 9, Data [],
     Usleep QUERY_DELAY, Command (DEVCOM_PREFIX @ ''B''), DecField 9, Data [],
     Usleep QUERY_DELAY, Command (DEVCOM_PREFIX @ ''B'')], None)"
  by (simp add: run_simps spool_simps cong: prod.case_cong_weak)

lemma null_buffer_run:
  "main (\<lambda>n. if n < 2 ^ 47 then Allocated else NULL) False ''ABC''
       (response ''-2'' @ response ''9'' @ response ''9'' @ response ''9'') =
   ([Command (DEVCOM_PREFIX @ ''(''), Command (DEVCOM_PREFIX @ ''R''),
     Command (DEVCOM_PREFIX @ ''L''), DecField (- 2),
     Command (DEVCOM_PREFIX @ ''L''), Command (DEVCOM_PREFIX @ ''L''),
     Command (DEVCOM_PREFIX @ ''U''),
     Usleep QUERY_DELAY, Command (DEVCOM_PREFIX @ ''B''), DecField 9, Data [],
     Usleep QUERY_DELAY, Command (DEVCOM_PREFIX @ ''B''), DecField 9, Data [],
     Usleep QUERY_DELAY, Command (DEVCOM_PREFIX @ ''B''), DecField 9, Data [],
     Usleep QUERY_DELAY, Command (DEVCOM_PREFIX @ ''B'')], None)"
proof -
  have "atoi ''-2'' = - 2" by code_simp
  moreover have "size_t_of_int (- 2) div 2 = 0x7FFFFFFFFFFFFFFF"
    by (simp add: size_t_of_int_def)
  ultimately show ?thesis
    by (simp add: run_simps main_simps cong: prod.case_cong_weak)
qed

section \<open>A capacity below two\<close>

lemma poll_events: "e \<in> set (fst (poll buffree fbufsize rx)) \<Longrightarrow> poll_event e"
proof (induction buffree fbufsize rx rule: poll.induct)
  case (1 buffree fbufsize rx)
  show ?case
  proof (cases "buffree \<le> fbufsize")
    case False
    with "1.prems" show ?thesis by (simp add: poll_release)
  next
    case True
    show ?thesis
    proof (cases "read_dec rx")
      case None
      with True "1.prems" show ?thesis by (auto simp: poll_again poll_event_def)
    next
      case (Some a)
      show ?thesis
      proof (cases a)
        case (Inl e')
        with Some True "1.prems" show ?thesis by (auto simp: poll_again poll_event_def)
      next
        case (Inr p)
        obtain v rx' where p: "p = (v, rx')" by (cases p)
        from "1.prems" Some Inr p True have
          "poll_event e \<or> e \<in> set (fst (poll (size_t_of_int v) fbufsize rx'))"
          by (auto simp: poll_again poll_event_def split: prod.splits)
        with "1.IH" [OF True Some Inr p [symmetric]] show ?thesis by blast
      qed
    qed
  qed
qed

lemma spool_events:
  "e \<in> set (fst (spool chunksize buffer f rx)) \<Longrightarrow> poll_event e \<or> (\<exists>d. e = Data d)"
proof (induction chunksize buffer f rx rule: spool.induct)
  case (1 chunksize buffer f rx)
  show ?case
  proof (cases "feof f")
    case True
    with "1.prems" show ?thesis by (simp add: spool_done)
  next
    case False
    obtain chunk f' where fr: "fread buffer (unat chunksize) f = (chunk, f')"
      by (cases "fread buffer (unat chunksize) f")
    obtain trp rp where po: "poll 0 (of_nat (length chunk)) rx = (trp, rp)"
      by (cases "poll 0 (of_nat (length chunk) :: size_t) rx")
    have pe: "\<And>e. e \<in> set trp \<Longrightarrow> poll_event e"
      using poll_events [of _ 0 "of_nat (length chunk)" rx] po by simp
    show ?thesis
    proof (cases "\<exists>rx'. rp = Some (Inr rx')")
      case False
      with fr po \<open>\<not> feof f\<close> have "fst (spool chunksize buffer f rx) = trp"
        by (auto simp: spool_step split: option.splits sum.splits)
      with "1.prems" pe show ?thesis by simp
    next
      case True
      then obtain rx' where rp: "rp = Some (Inr rx')" by blast
      from fr po rp \<open>\<not> feof f\<close> have
        "fst (spool chunksize buffer f rx) = trp @ Data chunk # fst (spool chunksize buffer f' rx')"
        by (simp add: spool_step split: prod.splits)
      with "1.prems" have "e \<in> set trp \<or> e = Data chunk \<or> e \<in> set (fst (spool chunksize buffer f' rx'))"
        by auto
      with pe "1.IH" [OF False fr [symmetric] po [symmetric] rp refl] show ?thesis by blast
    qed
  qed
qed

text \<open>
  With a chunk size of 0, or with a null buffer, \<open>fread\<close> delivers nothing and never sets
  the end-of-file indicator: the loop does not end and writes no byte of the input.
\<close>

lemma fread_nothing:
  "chunksize = 0 \<or> buffer = NULL \<Longrightarrow> fread buffer (unat chunksize) f = ([], f)"
  by (auto simp: fread_def)

lemma spool_never_reads:
  "chunksize = 0 \<or> buffer = NULL \<Longrightarrow> \<not> feof f \<Longrightarrow> spool chunksize buffer f rx = (tr, r) \<Longrightarrow>
   (\<forall>x. r \<noteq> Some (Inr x)) \<and> concat (data_writes tr) = []"
proof (induction chunksize buffer f rx arbitrary: tr r rule: spool.induct)
  case (1 chunksize buffer f rx)
  have fr: "fread buffer (unat chunksize) f = ([], f)"
    using "1.prems"(1) by (rule fread_nothing)
  obtain trp rp where po: "poll 0 0 rx = (trp, rp)" by (cases "poll 0 0 rx")
  have nodata: "data_writes trp = []" using poll_no_data [of 0 0 rx] po by simp
  show ?case
  proof (cases "\<exists>rx'. rp = Some (Inr rx')")
    case False
    with "1.prems" po fr have "tr = trp" "\<forall>x. r \<noteq> Some (Inr x)"
      by (auto simp: spool_step [where f = f and chunksize = chunksize and buffer = buffer and rx = rx]
          split: option.splits sum.splits)
    with nodata show ?thesis by auto
  next
    case True
    then obtain rx' where rp: "rp = Some (Inr rx')" by blast
    obtain tr' r' where sp: "spool chunksize buffer f rx' = (tr', r')"
      by (cases "spool chunksize buffer f rx'")
    from "1.prems" po rp sp fr have tr: "tr = trp @ Data [] # tr'" "r = r'"
      by (simp_all add: spool_step [where f = f and chunksize = chunksize and buffer = buffer and rx = rx])
    from po have po': "(trp, rp) = poll 0 (of_nat (length ([] :: string))) rx" by simp
    from "1.IH" [OF "1.prems"(2) fr [symmetric] po' rp refl "1.prems"(1) "1.prems"(2) sp]
    have "(\<forall>x. r' \<noteq> Some (Inr x)) \<and> concat (data_writes tr') = []" .
    with tr nodata show ?thesis by (simp add: data_writes_append)
  qed
qed

lemma main_init_events:
  "Command (DEVCOM_PREFIX @ '')'') \<notin> set (fst (main_init verbose rx))"
  "Command (DEVCOM_PREFIX @ ''B'') \<notin> set (fst (main_init verbose rx))"
  by (auto simp: main_init_def init_sequence_def start_sequence_def Let_def
      split: option.splits sum.splits prod.splits)

lemma spool_no_power_off:
  "Command (DEVCOM_PREFIX @ '')'') \<notin> set (fst (spool chunksize buffer f rx))"
  using spool_events [of "Command (DEVCOM_PREFIX @ '')'')" chunksize buffer f rx]
  by (auto simp: poll_event_def)

text \<open>
  The only fault of the readers, of the polling loop, of the data phase and of the
  initialisation is a store past a reader's buffer: the release of the pointer \<open>ident\<close>
  belongs to the shutdown alone.
\<close>

lemma read_dec_loop_fault:
  "read_dec_loop buf pos rx = Some (Inl e) \<Longrightarrow> e = OutOfBounds"
  by (induction buf pos rx rule: read_dec_loop.induct) (auto split: if_splits)

lemma read_asc_loop_fault:
  "read_asc_loop buf pos rx = Some (Inl e) \<Longrightarrow> e = OutOfBounds"
  by (induction buf pos rx rule: read_asc_loop.induct) (auto split: if_splits)

lemma poll_fault: "poll buffree fbufsize rx = (tr, Some (Inl e)) \<Longrightarrow> e = OutOfBounds"
proof (induction buffree fbufsize rx arbitrary: tr rule: poll.induct)
  case (1 buffree fbufsize rx)
  show ?case
  proof (cases "buffree \<le> fbufsize")
    case False
    with "1.prems" show ?thesis by (simp add: poll_release)
  next
    case True
    show ?thesis
    proof (cases "read_dec rx")
      case None
      with True "1.prems" show ?thesis by (simp add: poll_again)
    next
      case (Some a)
      show ?thesis
      proof (cases a)
        case (Inl e')
        with Some True "1.prems" have "e = e'" by (simp add: poll_again)
        with Some Inl show ?thesis
          using read_dec_loop_fault [of "replicate READBUFSIZE NUL" 0 rx e']
          by (simp add: read_dec_def)
      next
        case (Inr p)
        obtain v rx' where p: "p = (v, rx')" by (cases p)
        obtain tr1 r1 where rec: "poll (size_t_of_int v) fbufsize rx' = (tr1, r1)"
          by (cases "poll (size_t_of_int v) fbufsize rx'")
        from "1.prems" Some Inr p True rec have "r1 = Some (Inl e)"
          by (simp add: poll_again)
        with "1.IH" [OF True Some Inr p [symmetric]] rec show ?thesis by simp
      qed
    qed
  qed
qed

lemma spool_fault:
  "spool chunksize buffer f rx = (tr, Some (Inl e)) \<Longrightarrow> e = OutOfBounds"
proof (induction chunksize buffer f rx arbitrary: tr rule: spool.induct)
  case (1 chunksize buffer f rx)
  show ?case
  proof (cases "feof f")
    case True
    with "1.prems" show ?thesis by (simp add: spool_done)
  next
    case False
    obtain chunk f' where fr: "fread buffer (unat chunksize) f = (chunk, f')"
      by (cases "fread buffer (unat chunksize) f")
    obtain trp rp where po: "poll 0 (of_nat (length chunk)) rx = (trp, rp)"
      by (cases "poll 0 (of_nat (length chunk) :: size_t) rx")
    show ?thesis
    proof (cases "\<exists>rx'. rp = Some (Inr rx')")
      case False
      with "1.prems" fr po \<open>\<not> feof f\<close> have "rp = Some (Inl e)"
        by (auto simp: spool_step [where f = f and chunksize = chunksize and buffer = buffer and rx = rx]
            split: option.splits sum.splits)
      with po show ?thesis using poll_fault by blast
    next
      case True
      then obtain rx' where rp: "rp = Some (Inr rx')" by blast
      obtain tr' r' where sp: "spool chunksize buffer f' rx' = (tr', r')"
        by (cases "spool chunksize buffer f' rx'")
      from "1.prems" fr po rp sp \<open>\<not> feof f\<close> have "r' = Some (Inl e)"
        by (simp add: spool_step [where f = f and chunksize = chunksize and buffer = buffer and rx = rx])
      with "1.IH" [OF False fr [symmetric] po [symmetric] rp refl] sp show ?thesis by simp
    qed
  qed
qed

lemma main_init_fault: "main_init verbose rx = (tr, Some (Inl e)) \<Longrightarrow> e = OutOfBounds"
  using read_dec_loop_fault [of "replicate READBUFSIZE NUL" 0 rx e]
  by (auto simp: main_init_def read_dec_def read_asc_def Let_def
      split: option.splits sum.splits prod.splits if_splits dest: read_asc_loop_fault)

text \<open>
  Claim C6 (capacity 0 or 1) does not hold of the code: there is no check of the chunk
  size. When the capacity query is answered with 0 or 1 the chunk size is 0, and the
  session never ends: \<open>main\<close> does not return an exit status, the power-off command is
  never sent and no byte of the input is ever written, whatever the plotter answers; nor
  does the session reach the cleanup after the power-off command (the release of \<open>ident\<close>),
  in either mode.
\<close>

theorem capacity_below_two_never_ends:
  "read_dec rx = Some (Inr (C, rx0)) \<Longrightarrow> C = 0 \<or> C = 1 \<Longrightarrow>
   (\<forall>s. snd (main malloc verbose input rx) \<noteq> Some (Inr s))
   \<and> Command (DEVCOM_PREFIX @ '')'') \<notin> set (fst (main malloc verbose input rx))
   \<and> concat (data_writes (fst (main malloc verbose input rx))) = []
   \<and> snd (main malloc verbose input rx) \<noteq> Some (Inl FreeUninitialised)"
proof -
  assume rd: "read_dec rx = Some (Inr (C, rx0))" and C: "C = 0 \<or> C = 1"
  from C have zero: "chunksize_of (size_t_of_int C) = 0"
    by (auto simp: chunksize_of_def size_t_of_int_def)
  obtain tri ri where mi: "main_init verbose rx = (tri, ri)" by (cases "main_init verbose rx")
  have tri: "Command (DEVCOM_PREFIX @ '')'') \<notin> set tri" "data_writes tri = []"
    using main_init_events(1) [of verbose rx] main_init_no_data [of verbose rx] mi by simp_all
  show ?thesis
  proof (cases "\<exists>c rx1. ri = Some (Inr (c, rx1))")
    case False
    with mi have "main malloc verbose input rx = (tri, None)
        \<or> (ri = Some (Inl OutOfBounds) \<and> main malloc verbose input rx = (tri, Some (Inl OutOfBounds)))"
      using main_init_fault [of verbose rx tri]
      by (auto simp: main_def next_run_def split: option.splits sum.splits)
    with tri show ?thesis by auto
  next
    case True
    then obtain c rx1 where ri: "ri = Some (Inr (c, rx1))" by blast
    from main_init_chunksize [OF mi [unfolded ri] rd] zero have c: "c = 0" by simp
    obtain trs r where sp: "spool 0 (malloc 0) \<lparr>unread = input, at_eof = False\<rparr> rx1 = (trs, r)"
      by (cases "spool 0 (malloc 0) \<lparr>unread = input, at_eof = False\<rparr> rx1")
    from spool_never_reads [OF _ _ sp] have r: "\<forall>x. r \<noteq> Some (Inr x)" and d: "concat (data_writes trs) = []"
      by (simp_all add: feof_def)
    from spool_no_power_off [of 0 "malloc 0" "\<lparr>unread = input, at_eof = False\<rparr>" rx1] sp
    have np: "Command (DEVCOM_PREFIX @ '')'') \<notin> set trs" by simp
    from mi ri c sp r have "main malloc verbose input rx = (tri @ trs, None)
        \<or> (r = Some (Inl OutOfBounds) \<and> main malloc verbose input rx = (tri @ trs, Some (Inl OutOfBounds)))"
      using spool_fault [of 0 "malloc 0" "\<lparr>unread = input, at_eof = False\<rparr>" rx1 trs]
      by (auto simp: main_def next_run_def split: option.splits sum.splits)
    with tri np d show ?thesis by (auto simp: data_writes_append)
  qed
qed

lemma tiny_buffer_run:
  "main (\<lambda>n. Allocated) False ''A'' (response ''1'' @ response ''9'' @ response ''9'' @ response ''9'') =
  ([Command (DEVCOM_PREFIX @ ''(''), Command (DEVCOM_PREFIX @ ''R''), Command (DEVCOM_PREFIX @ ''L''),
    DecField 1, Command (DEVCOM_PREFIX @ ''L''), Command (DEVCOM_PREFIX @ ''L''),
    Command (DEVCOM_PREFIX @ ''U''),
    Usleep QUERY_DELAY, Command (DEVCOM_PREFIX @ ''B''), DecField 9, Data [],
    Usleep QUERY_DELAY, Command (DEVCOM_PREFIX @ ''B''), DecField 9, Data [],
    Usleep QUERY_DELAY, Command (DEVCOM_PREFIX @ ''B''), DecField 9, Data [],
    Usleep QUERY_DELAY, Command (DEVCOM_PREFIX @ ''B'')], None)"
  by (simp add: run_simps main_simps cong: prod.case_cong_weak)

theorem capacity_below_two_never_ends_witness:
  "read_dec (response ''1'' @ response ''9'' @ response ''9'' @ response ''9'')
     = Some (Inr (1, response ''9'' @ response ''9'' @ response ''9'')) \<and>
   ((1 :: cint) = 0 \<or> (1 :: cint) = 1) \<and>
   snd (main (\<lambda>n. Allocated) False ''A'' (response ''1'' @ response ''9'' @ response ''9'' @ response ''9'')) = None \<and>
   Command (DEVCOM_PREFIX @ '')'')
     \<notin> set (fst (main (\<lambda>n. Allocated) False ''A'' (response ''1'' @ response ''9'' @ response ''9'' @ response ''9''))) \<and>
   concat (data_writes
     (fst (main (\<lambda>n. Allocated) False ''A'' (response ''1'' @ response ''9'' @ response ''9'' @ response ''9'')))) = []"
proof -
  have rd: "read_dec (response ''1'' @ response ''9'' @ response ''9'' @ response ''9'')
     = Some (Inr (1, response ''9'' @ response ''9'' @ response ''9''))"
    by (simp add: run_simps)
  have C: "(1 :: cint) = 0 \<or> (1 :: cint) = 1" by simp
  have "snd (main (\<lambda>n. Allocated) False ''A'' (response ''1'' @ response ''9'' @ response ''9'' @ response ''9'')) = None"
    by (simp add: tiny_buffer_run)
  with capacity_below_two_never_ends [OF rd C, of "\<lambda>n. Allocated" False "''A''"] rd C show ?thesis by blast
qed


section \<open>Answers read one query late\<close>

lemma pending_append: "pending (a @ b) = pending a + pending b"
  by (induction a rule: pending.induct) auto

lemma query_B: "is_query (DEVCOM_PREFIX @ ''B'')"
  by (simp add: is_query_def)

text \<open>In the poll loop every query is sent with no answer of the loop outstanding.\<close>

lemma poll_pending:
  "poll buffree fbufsize rx = (tr, r) \<Longrightarrow>
   (\<forall>pre post. tr = pre @ Command (DEVCOM_PREFIX @ ''B'') # post \<longrightarrow> pending pre = 0)
   \<and> (\<forall>rx'. r = Some (Inr rx') \<longrightarrow> pending tr = 0)"
proof (induction buffree fbufsize rx arbitrary: tr r rule: poll.induct)
  case (1 buffree fbufsize rx)
  let ?B = "Command (DEVCOM_PREFIX @ ''B'')"
  show ?case
  proof (cases "buffree \<le> fbufsize")
    case False
    with "1.prems" show ?thesis by (simp add: poll_release)
  next
    case True
    have short: "(\<forall>pre post. [Usleep QUERY_DELAY, ?B] = pre @ ?B # post \<longrightarrow> pending pre = 0)"
      by (auto simp: Cons_eq_append_conv)
    show ?thesis
    proof (cases "read_dec rx")
      case None
      with True "1.prems" have "tr = [Usleep QUERY_DELAY, ?B]" "r = None"
        by (simp_all add: poll_again)
      with short show ?thesis by simp
    next
      case (Some a)
      show ?thesis
      proof (cases a)
        case (Inl e)
        with Some True "1.prems" have "tr = [Usleep QUERY_DELAY, ?B]" "r = Some (Inl e)"
          by (simp_all add: poll_again)
        with short show ?thesis by simp
      next
        case (Inr p)
        obtain v rx1 where p: "p = (v, rx1)" by (cases p)
        obtain tr1 r1 where rec: "poll (size_t_of_int v) fbufsize rx1 = (tr1, r1)"
          by (cases "poll (size_t_of_int v) fbufsize rx1")
        from "1.prems" Some Inr p True rec have
          tr: "tr = Usleep QUERY_DELAY # ?B # DecField v # tr1" and r: "r = r1"
          by (simp_all add: poll_again)
        from "1.IH" [OF True Some Inr p [symmetric] rec] have
          ih1: "\<And>pre post. tr1 = pre @ ?B # post \<Longrightarrow> pending pre = 0" and
          ih2: "\<And>rx'. r1 = Some (Inr rx') \<Longrightarrow> pending tr1 = 0"
          by blast+
        have "pending pre = 0" if "tr = pre @ ?B # post" for pre post
        proof -
          from that tr have "pre = [Usleep QUERY_DELAY]
            \<or> (\<exists>pre1. pre = Usleep QUERY_DELAY # ?B # DecField v # pre1 \<and> tr1 = pre1 @ ?B # post)"
            by (auto simp: Cons_eq_append_conv)
          then show ?thesis
          proof
            assume "pre = [Usleep QUERY_DELAY]"
            then show ?thesis by simp
          next
            assume "\<exists>pre1. pre = Usleep QUERY_DELAY # ?B # DecField v # pre1 \<and> tr1 = pre1 @ ?B # post"
            then obtain pre1 where
              "pre = Usleep QUERY_DELAY # ?B # DecField v # pre1" "tr1 = pre1 @ ?B # post"
              by blast
            with ih1 show ?thesis by (simp add: query_B)
          qed
        qed
        moreover have "pending tr = 0" if "r = Some (Inr rx')" for rx'
          using that r tr ih2 by (simp add: query_B)
        ultimately show ?thesis by blast
      qed
    qed
  qed
qed

lemma spool_pending:
  "spool chunksize buffer f rx = (tr, r) \<Longrightarrow>
   (\<forall>pre post. tr = pre @ Command (DEVCOM_PREFIX @ ''B'') # post \<longrightarrow> pending pre = 0)"
proof (induction chunksize buffer f rx arbitrary: tr r rule: spool.induct)
  case (1 chunksize buffer f rx)
  let ?B = "Command (DEVCOM_PREFIX @ ''B'')"
  show ?case
  proof (cases "feof f")
    case True
    with "1.prems" show ?thesis by (simp add: spool_done)
  next
    case False
    obtain chunk f' where fr: "fread buffer (unat chunksize) f = (chunk, f')"
      by (cases "fread buffer (unat chunksize) f")
    obtain trp rp where po: "poll 0 (of_nat (length chunk)) rx = (trp, rp)"
      by (cases "poll 0 (of_nat (length chunk) :: size_t) rx")
    from poll_pending [OF po] have
      pp1: "\<And>pre post. trp = pre @ ?B # post \<Longrightarrow> pending pre = 0" and
      pp2: "\<And>rx'. rp = Some (Inr rx') \<Longrightarrow> pending trp = 0"
      by blast+
    show ?thesis
    proof (cases "\<exists>rx'. rp = Some (Inr rx')")
      case False
      with "1.prems"(1) fr po \<open>\<not> feof f\<close> have "tr = trp"
        by (auto simp: spool_step [where f = f and chunksize = chunksize and buffer = buffer and rx = rx]
            split: option.splits sum.splits)
      with pp1 show ?thesis by blast
    next
      case True
      then obtain rx' where rp: "rp = Some (Inr rx')" by blast
      obtain tr' r' where sp: "spool chunksize buffer f' rx' = (tr', r')"
        by (cases "spool chunksize buffer f' rx'")
      from "1.prems"(1) fr po rp sp \<open>\<not> feof f\<close> have tr: "tr = trp @ Data chunk # tr'"
        by (simp add: spool_step [where f = f and chunksize = chunksize and buffer = buffer and rx = rx])
      from "1.IH" [OF False fr [symmetric] po [symmetric] rp refl sp] have
        ih: "\<And>pre post. tr' = pre @ ?B # post \<Longrightarrow> pending pre = 0" by blast
      have "pending pre = 0" if "tr = pre @ ?B # post" for pre post
      proof -
        from that tr have "trp @ Data chunk # tr' = pre @ ?B # post" by simp
        then consider (b) us where "trp = pre @ ?B # us"
          | (c) us where "pre = trp @ Data chunk # us" "tr' = us @ ?B # post"
          by (auto simp: append_eq_append_conv2 append_eq_Cons_conv Cons_eq_append_conv)
        then show ?thesis
        proof cases
          case b
          with pp1 show ?thesis by blast
        next
          case c
          with ih [OF c(2)] pp2 [OF rp] show ?thesis by (simp add: pending_append)
        qed
      qed
      then show ?thesis by blast
    qed
  qed
qed

lemma main_init_pending:
  "main_init verbose rx = (tri, Some (Inr (c, rx1))) \<Longrightarrow> pending tri = 2"
  by (auto simp: main_init_def init_sequence_def start_sequence_def Let_def is_query_def
      DEVCOM_PREFIX_def split: option.splits sum.splits prod.splits if_splits)

text \<open>
  Claim C7 (no stale answer) does not hold of the code. Lines 245-246 send two
  \<open>ESC . L\<close> queries and read neither answer. From then on, whenever the transfer loop
  sends \<open>ESC . B\<close> and reads a field, two older queries are still unanswered: the value it
  acts on is the answer to the query sent two queries earlier, not to the one just sent.
\<close>

theorem poll_answer_is_stale:
  "fst (main malloc verbose input rx) = pre @ Command (DEVCOM_PREFIX @ ''B'') # DecField v # post \<Longrightarrow>
   pending pre = 2"
proof -
  let ?B = "Command (DEVCOM_PREFIX @ ''B'')"
  assume h: "fst (main malloc verbose input rx) = pre @ ?B # DecField v # post"
  from main_split [of malloc verbose input rx] obtain trs tail where
    tr: "fst (main malloc verbose input rx) = fst (main_init verbose rx) @ trs @ tail" and
    tail: "tail = [] \<or> tail = [Command (DEVCOM_PREFIX @ '')'')]" and
    trs: "trs = [] \<or> (\<exists>c rx1 r. snd (main_init verbose rx) = Some (Inr (c, rx1))
            \<and> spool c (malloc c) \<lparr>unread = input, at_eof = False\<rparr> rx1 = (trs, r))"
    by blast
  from tail have nt: "?B \<notin> set tail" by auto
  from split_around [OF main_init_events(2) nt] tr h obtain pre1 post1 where
    p: "pre = fst (main_init verbose rx) @ pre1" "trs = pre1 @ ?B # post1" by metis
  with trs obtain c rx1 r where
    mi: "snd (main_init verbose rx) = Some (Inr (c, rx1))" and
    sp: "spool c (malloc c) \<lparr>unread = input, at_eof = False\<rparr> rx1 = (trs, r)"
    by auto
  from mi have "main_init verbose rx = (fst (main_init verbose rx), Some (Inr (c, rx1)))"
    by (metis prod.collapse)
  then have "pending (fst (main_init verbose rx)) = 2" by (rule main_init_pending)
  moreover from spool_pending [OF sp] p(2) have "pending pre1 = 0" by blast
  ultimately show ?thesis using p(1) by (simp add: pending_append)
qed


text \<open>
  A session that shows the effect: the plotter reports a capacity of 100 to each
  \<open>ESC . L\<close> and a free space of 0 to each \<open>ESC . B\<close>. The chunk of 50 bytes is released on
  the 100 that answers the \<open>ESC . L\<close> of line 245, and the plotter's two answers to the
  polls are still unread when the loop ends.
\<close>

lemma stale_run:
  "main (\<lambda>n. Allocated) False (replicate 50 (CHR ''X''))
     (response ''100'' @ response ''100'' @ response ''100'' @ response ''0'' @ response ''0'') =
   ([Command (DEVCOM_PREFIX @ ''(''), Command (DEVCOM_PREFIX @ ''R''),
     Command (DEVCOM_PREFIX @ ''L''), DecField 100,
     Command (DEVCOM_PREFIX @ ''L''), Command (DEVCOM_PREFIX @ ''L''),
     Command (DEVCOM_PREFIX @ ''U''),
     Usleep QUERY_DELAY, Command (DEVCOM_PREFIX @ ''B''), DecField 100,
     Data (replicate 50 (CHR ''X'')),
     Usleep QUERY_DELAY, Command (DEVCOM_PREFIX @ ''B''), DecField 100, Data [],
     Command (DEVCOM_PREFIX @ '')'')], Some (Inl FreeUninitialised))"
  by (simp add: run_simps main_simps cong: prod.case_cong_weak)

lemma stale_answers_left_unread:
  "spool 50 Allocated \<lparr>unread = replicate 50 (CHR ''X''), at_eof = False\<rparr>
     (response ''100'' @ response ''100'' @ response ''0'' @ response ''0'') =
   ([Usleep QUERY_DELAY, Command (DEVCOM_PREFIX @ ''B''), DecField 100,
     Data (replicate 50 (CHR ''X'')),
     Usleep QUERY_DELAY, Command (DEVCOM_PREFIX @ ''B''), DecField 100, Data []],
    Some (Inr (\<lparr>unread = [], at_eof = True\<rparr>, response ''0'' @ response ''0'')))"
  by (simp add: run_simps spool_simps cong: prod.case_cong_weak)

theorem poll_answer_is_stale_witness:
  "fst (main (\<lambda>n. Allocated) False (replicate 50 (CHR ''X''))
     (response ''100'' @ response ''100'' @ response ''100'' @ response ''0'' @ response ''0'')) =
     [Command (DEVCOM_PREFIX @ ''(''), Command (DEVCOM_PREFIX @ ''R''),
      Command (DEVCOM_PREFIX @ ''L''), DecField 100,
      Command (DEVCOM_PREFIX @ ''L''), Command (DEVCOM_PREFIX @ ''L''),
      Command (DEVCOM_PREFIX @ ''U''), Usleep QUERY_DELAY]
     @ Command (DEVCOM_PREFIX @ ''B'') # DecField 100 #
     [Data (replicate 50 (CHR ''X'')),
      Usleep QUERY_DELAY, Command (DEVCOM_PREFIX @ ''B''), DecField 100, Data [],
      Command (DEVCOM_PREFIX @ '')'')] \<and>
   pending [Command (DEVCOM_PREFIX @ ''(''), Command (DEVCOM_PREFIX @ ''R''),
      Command (DEVCOM_PREFIX @ ''L''), DecField 100,
      Command (DEVCOM_PREFIX @ ''L''), Command (DEVCOM_PREFIX @ ''L''),
      Command (DEVCOM_PREFIX @ ''U''), Usleep QUERY_DELAY] = 2"
proof -
  have h: "fst (main (\<lambda>n. Allocated) False (replicate 50 (CHR ''X''))
     (response ''100'' @ response ''100'' @ response ''100'' @ response ''0'' @ response ''0'')) =
     [Command (DEVCOM_PREFIX @ ''(''), Command (DEVCOM_PREFIX @ ''R''),
      Command (DEVCOM_PREFIX @ ''L''), DecField 100,
      Command (DEVCOM_PREFIX @ ''L''), Command (DEVCOM_PREFIX @ ''L''),
      Command (DEVCOM_PREFIX @ ''U''), Usleep QUERY_DELAY]
     @ Command (DEVCOM_PREFIX @ ''B'') # DecField 100 #
     [Data (replicate 50 (CHR ''X'')),
      Usleep QUERY_DELAY, Command (DEVCOM_PREFIX @ ''B''), DecField 100, Data [],
      Command (DEVCOM_PREFIX @ '')'')]"
    by (simp add: stale_run)
  from poll_answer_is_stale [OF h] h show ?thesis by blast
qed

section \<open>An empty input\<close>

text \<open>
  Claim C8 (empty input), as the code has it. The loop is entered, since the end-of-file
  indicator is only set by a read. With a chunk size of at least 1 and a buffer that
  \<open>malloc\<close> delivered, the read returns 0 bytes and sets it; the poll loop then runs as
  for any chunk, until an answer is greater than 0; a write of zero bytes follows, the
  loop ends and the power-off command is sent. No data byte is written, but the loop does
  send at least one query, and the power-off waits for the plotter's answer. After the
  power-off comes \<open>free(ident)\<close>: the session returns \<open>EXIT_SUCCESS\<close> in verbose mode, and
  frees an uninitialised pointer otherwise.
\<close>

theorem empty_input_session:
  "main_init verbose rx = (tri, Some (Inr (chunksize, rx1))) \<Longrightarrow> 0 < chunksize \<Longrightarrow>
   malloc chunksize = Allocated \<Longrightarrow> releases (answers rx1) [0] \<Longrightarrow>
   \<exists>trp v. main malloc verbose [] rx =
       (tri @ trp @ [Usleep QUERY_DELAY, Command (DEVCOM_PREFIX @ ''B''), DecField v,
                     Data [], Command (DEVCOM_PREFIX @ '')'')],
        if verbose then Some (Inr EXIT_SUCCESS) else Some (Inl FreeUninitialised))
     \<and> data_writes trp = [] \<and> 0 < size_t_of_int v"
proof -
  assume mi: "main_init verbose rx = (tri, Some (Inr (chunksize, rx1)))"
    and c: "0 < chunksize" and m: "malloc chunksize = Allocated"
    and rel: "releases (answers rx1) [0]"
  let ?f0 = "\<lparr>unread = [], at_eof = False\<rparr>"
  let ?f1 = "\<lparr>unread = [], at_eof = True\<rparr>"
  from c have c': "0 < unat chunksize" by (simp add: word_less_nat_alt)
  then have fr: "fread Allocated (unat chunksize) ?f0 = ([], ?f1)" by (simp add: fread_def)
  from rel obtain w ws where "dropWhile (\<lambda>v. unat v \<le> 0) (answers rx1) = w # ws"
    by (auto split: list.splits)
  then have "dropWhile (\<lambda>v. v \<le> 0) (answers rx1) = w # ws"
    by (simp add: word_le_nat_alt)
  from poll_answers [OF this] obtain tr rx2 where
    po: "poll 0 0 rx1 = (tr, Some (Inr rx2))" by blast
  from poll_trace_end [OF po] obtain trp v where
    tr: "tr = trp @ [Usleep QUERY_DELAY, Command (DEVCOM_PREFIX @ ''B''), DecField v]"
    and v: "0 < size_t_of_int v" by auto
  have nd: "data_writes trp = []"
    using poll_no_data [of 0 0 rx1] po tr by (simp add: data_writes_append)
  have "spool chunksize Allocated ?f1 rx2 = ([], Some (Inr (?f1, rx2)))"
    by (rule spool_done) (simp add: feof_def)
  with fr po have sp: "spool chunksize Allocated ?f0 rx1 = (tr @ [Data []], Some (Inr (?f1, rx2)))"
    by (simp add: spool_step [where f = ?f0 and chunksize = chunksize and buffer = Allocated
          and rx = rx1] feof_def)
  from mi m sp tr have "main malloc verbose [] rx =
       (tri @ trp @ [Usleep QUERY_DELAY, Command (DEVCOM_PREFIX @ ''B''), DecField v,
                     Data [], Command (DEVCOM_PREFIX @ '')'')],
        if verbose then Some (Inr EXIT_SUCCESS) else Some (Inl FreeUninitialised))"
    by (simp add: main_def next_run_def main_shutdown_def)
  with nd v show ?thesis by blast
qed

theorem empty_input_session_witness:
  "main_init True (response ''100'' @ response ''7550A'' @ response ''100'')
     = (init_sequence @ [DecField 100, Command (DEVCOM_PREFIX @ ''A''), AscField ''7550A'']
          @ start_sequence, Some (Inr (50, response ''100''))) \<and>
   (0 :: size_t) < 50 \<and>
   (\<lambda>n :: size_t. Allocated) 50 = Allocated \<and>
   releases (answers (response ''100'')) [0] \<and>
   (\<exists>trp v. main (\<lambda>n. Allocated) True [] (response ''100'' @ response ''7550A'' @ response ''100'') =
       ((init_sequence @ [DecField 100, Command (DEVCOM_PREFIX @ ''A''), AscField ''7550A'']
          @ start_sequence) @ trp
          @ [Usleep QUERY_DELAY, Command (DEVCOM_PREFIX @ ''B''), DecField v,
             Data [], Command (DEVCOM_PREFIX @ '')'')],
        Some (Inr EXIT_SUCCESS))
     \<and> data_writes trp = [] \<and> 0 < size_t_of_int v)"
proof -
  have mi: "main_init True (response ''100'' @ response ''7550A'' @ response ''100'')
     = (init_sequence @ [DecField 100, Command (DEVCOM_PREFIX @ ''A''), AscField ''7550A'']
          @ start_sequence, Some (Inr (50, response ''100'')))"
    by (simp add: main_init_def run_simps read_asc_response c_str_def NUL_def chunksize_of_def)
  have c: "(0 :: size_t) < 50" by simp
  have m: "(\<lambda>n :: size_t. Allocated) 50 = Allocated" by simp
  have r: "releases (answers (response ''100'')) [0]"
    by (simp add: answers_step answers_stop run_simps)
  from empty_input_session [OF mi c m r] mi c r show ?thesis by simp
qed

text \<open>
  The claim as the specification words it (the read of 0 bytes ends the loop without
  sending anything, and the power-off follows) fails: with a plotter that answers the
  poll, the loop sends the query \<open>ESC . B\<close> and calls \<open>write\<close> before the power-off; with a
  plotter that reports no free space, the power-off is never sent.
\<close>

theorem empty_input_counterexample:
  "main (\<lambda>n. Allocated) True [] (response ''100'' @ response ''7550A'' @ response ''100'') =
   ([Command (DEVCOM_PREFIX @ ''(''), Command (DEVCOM_PREFIX @ ''R''),
     Command (DEVCOM_PREFIX @ ''L''), DecField 100,
     Command (DEVCOM_PREFIX @ ''A''), AscField ''7550A'',
     Command (DEVCOM_PREFIX @ ''L''), Command (DEVCOM_PREFIX @ ''L''),
     Command (DEVCOM_PREFIX @ ''U''),
     Usleep QUERY_DELAY, Command (DEVCOM_PREFIX @ ''B''), DecField 100, Data [],
     Command (DEVCOM_PREFIX @ '')'')], Some (Inr EXIT_SUCCESS)) \<and>
   main (\<lambda>n. Allocated) True [] (response ''100'' @ response ''7550A'' @ response ''0'') =
   ([Command (DEVCOM_PREFIX @ ''(''), Command (DEVCOM_PREFIX @ ''R''),
     Command (DEVCOM_PREFIX @ ''L''), DecField 100,
     Command (DEVCOM_PREFIX @ ''A''), AscField ''7550A'',
     Command (DEVCOM_PREFIX @ ''L''), Command (DEVCOM_PREFIX @ ''L''),
     Command (DEVCOM_PREFIX @ ''U''),
     Usleep QUERY_DELAY, Command (DEVCOM_PREFIX @ ''B''), DecField 0,
     Usleep QUERY_DELAY, Command (DEVCOM_PREFIX @ ''B'')], None)"
  by (simp add: run_simps main_simps cong: prod.case_cong_weak)

end
